theory Spec2Isabelle
  imports Main "HOL-Library.Word"
begin

unbundle bit_operations_syntax

section \<open>The sender side of the TCP output simulation\<close>

text \<open>
  The program keeps one \<open>struct tcp_sock\<close> and mutates it through
  \<open>tcp_write_xmit\<close>, \<open>tcp_retransmit_timer\<close>, \<open>tcp_ack_received\<close> and their
  helpers. Each C function becomes a HOL function from the socket to the new socket.
  The C integer types are words of their width, so every \<open>+\<close>, \<open>-\<close> and \<open>*\<close> below
  wraps exactly as the unsigned C arithmetic does. Three things the C standard leaves
  undefined are values of type \<open>fault\<close>: an access to \<open>segments[k]\<close> with
  \<open>k \<ge> MAX_SEGMENTS\<close>, a division by zero, and \<open>abs(INT_MIN)\<close>. The calls to
  \<open>printf\<close> have no effect on the socket and are left out.
\<close>

subsection \<open>Constants\<close>

definition TCP_MAX_WINDOW :: nat where "TCP_MAX_WINDOW = 65535"
definition TCP_MSS :: nat where "TCP_MSS = 1460"
definition MAX_SEGMENTS :: nat where "MAX_SEGMENTS = 32"
definition MAX_RETRIES :: nat where "MAX_RETRIES = 5"
definition RTO_MIN :: nat where "RTO_MIN = 1000"
definition RTO_MAX :: nat where "RTO_MAX = 120000"
definition INIT_CWND :: nat where "INIT_CWND = 10"
definition INIT_SSTHRESH :: nat where "INIT_SSTHRESH = 65535"
definition TCP_ACK :: nat where "TCP_ACK = 16"
definition TCP_ESTABLISHED :: nat where "TCP_ESTABLISHED = 1"

subsection \<open>The two structs\<close>

text \<open>
  \<open>data\<close> stands for the array \<open>uint8_t data[TCP_MSS]\<close>. Every cell of that array
  always holds the same byte (zero from \<open>calloc\<close>, or the byte that \<open>memset\<close>
  writes into all \<open>TCP_MSS\<close> cells), and no function reads it, so the field keeps
  that one byte.
\<close>

record tcp_segment =
  seq :: "32 word"
  ack :: "32 word"
  window :: "16 word"
  flags :: "8 word"
  mss :: "16 word"
  data :: "8 word"
  len :: "16 word"
  tsval :: "32 word"
  tsecr :: "32 word"
  sacked :: bool
  retrans :: bool
  retries :: "8 word"

record tcp_sock =
  saddr :: "32 word"
  daddr :: "32 word"
  sport :: "16 word"
  dport :: "16 word"
  state :: "8 word"
  snd_una :: "32 word"
  snd_nxt :: "32 word"
  rcv_nxt :: "32 word"
  rcv_wnd :: "32 word"
  cwnd :: "32 word"
  ssthresh :: "32 word"
  in_recovery :: bool
  recover :: "32 word"
  srtt :: "32 word"
  rttvar :: "32 word"
  rto :: "32 word"
  segments :: "tcp_segment list"
  num_segments :: "8 word"
  packets_sent :: "64 word"
  bytes_sent :: "64 word"
  retransmits :: "64 word"
  timeouts :: "64 word"

datatype fault = ArrayIndexOutOfBounds nat | DivisionByZero | AbsOfIntMin

text \<open>What \<open>calloc\<close> returns: every field zero, the array with its \<open>MAX_SEGMENTS\<close> slots.\<close>

definition zero_segment :: tcp_segment where
  "zero_segment = \<lparr>seq = 0, ack = 0, window = 0, flags = 0, mss = 0, data = 0, len = 0,
     tsval = 0, tsecr = 0, sacked = False, retrans = False, retries = 0\<rparr>"

definition zero_sock :: tcp_sock where
  "zero_sock = \<lparr>saddr = 0, daddr = 0, sport = 0, dport = 0, state = 0,
     snd_una = 0, snd_nxt = 0, rcv_nxt = 0, rcv_wnd = 0, cwnd = 0, ssthresh = 0,
     in_recovery = False, recover = 0, srtt = 0, rttvar = 0, rto = 0,
     segments = replicate MAX_SEGMENTS zero_segment, num_segments = 0,
     packets_sent = 0, bytes_sent = 0, retransmits = 0, timeouts = 0\<rparr>"

subsection \<open>tcp_sock_create\<close>

text \<open>
  The argument says whether \<open>calloc\<close> returned memory; \<open>None\<close> is the \<open>NULL\<close> of the
  early return. \<open>snd_nxt\<close> is read back from the \<open>snd_una\<close> just stored.
\<close>

definition tcp_sock_create :: "bool \<Rightarrow> tcp_sock option" where
  "tcp_sock_create calloc_ok =
     (if \<not> calloc_ok then None
      else Some (zero_sock
        \<lparr>saddr := 0x0A000001, daddr := 0x0A000002, sport := 12345, dport := 80,
         state := of_nat TCP_ESTABLISHED,
         snd_una := 1000, snd_nxt := 1000, rcv_nxt := 2000,
         rcv_wnd := of_nat TCP_MAX_WINDOW,
         cwnd := of_nat INIT_CWND * of_nat TCP_MSS, ssthresh := of_nat INIT_SSTHRESH,
         srtt := 100, rttvar := 50, rto := of_nat RTO_MIN\<rparr>))"

text \<open>The socket every run of the program starts from.\<close>

definition initial_sock :: tcp_sock where
  "initial_sock = the (tcp_sock_create True)"

subsection \<open>tcp_transmit_skb\<close>

text \<open>The pair is the \<open>int\<close> the function returns (always 0) and the socket.\<close>

definition tcp_transmit_skb :: "tcp_sock \<Rightarrow> tcp_segment \<Rightarrow> int \<times> tcp_sock" where
  "tcp_transmit_skb sk seg =
     (let sk1 = sk\<lparr>packets_sent := packets_sent sk + 1\<rparr>;
          sk2 = sk1\<lparr>bytes_sent := bytes_sent sk1 + ucast (len seg)\<rparr>;
          sk3 = (if retrans seg then sk2\<lparr>retransmits := retransmits sk2 + 1\<rparr> else sk2)
      in (0, sk3))"

subsection \<open>tcp_retransmit_skb\<close>

text \<open>
  \<open>seg\<close> is a pointer in C; the function changes the segment it points to and the
  socket, so the model returns both. The socket fields it writes (\<open>rto\<close> and the
  counters) are disjoint from the array \<open>segments\<close>, so a caller that passes
  \<open>&sk->segments[i]\<close> stores the returned segment back at index \<open>i\<close>.
  \<open>sk->rto * 2\<close> is a 32-bit unsigned product.
\<close>

definition tcp_retransmit_skb :: "tcp_sock \<Rightarrow> tcp_segment \<Rightarrow> tcp_sock \<times> tcp_segment" where
  "tcp_retransmit_skb sk seg =
     (if MAX_RETRIES \<le> unat (retries seg) then (sk, seg)
      else
        let seg1 = seg\<lparr>retrans := True\<rparr>;
            seg2 = seg1\<lparr>retries := retries seg1 + 1\<rparr>;
            sk1 = snd (tcp_transmit_skb sk seg2);
            sk2 = sk1\<lparr>rto := (if rto sk1 * 2 < of_nat RTO_MAX then rto sk1 * 2
                               else of_nat RTO_MAX)\<rparr>
        in (sk2, seg2))"

subsection \<open>tcp_enter_recovery, tcp_leave_recovery\<close>

definition tcp_enter_recovery :: "tcp_sock \<Rightarrow> tcp_sock" where
  "tcp_enter_recovery sk = (sk\<lparr>in_recovery := True\<rparr>)\<lparr>recover := snd_nxt sk\<rparr>"

definition tcp_leave_recovery :: "tcp_sock \<Rightarrow> tcp_sock" where
  "tcp_leave_recovery sk = sk\<lparr>in_recovery := False\<rparr>"

subsection \<open>tcp_write_xmit\<close>

text \<open>
  One pass through the body of the \<open>for\<close> loop, for a slot inside the array: the
  segment in slot \<open>segments[num_segments]\<close> is filled in (the fields \<open>tsval\<close>,
  \<open>tsecr\<close> and \<open>sacked\<close> keep what the slot held), \<open>snd_nxt\<close> advances by the
  segment's length, the segment is transmitted and \<open>num_segments\<close> is incremented.
  \<open>window\<close>, \<open>mss\<close> and \<open>len\<close> are 16-bit fields, so the 32-bit values stored
  there are truncated; \<open>memset\<close> stores the byte \<open>'A' + i\<close>.
\<close>

definition write_xmit_body :: "8 word \<Rightarrow> tcp_sock \<Rightarrow> tcp_sock" where
  "write_xmit_body i sk =
     (let mss_local = (of_nat TCP_MSS :: 32 word);
          k = unat (num_segments sk);
          seg = (segments sk ! k)
            \<lparr>seq := snd_nxt sk, ack := rcv_nxt sk, window := ucast (rcv_wnd sk),
             flags := of_nat TCP_ACK, mss := ucast mss_local, len := ucast mss_local,
             retrans := False, retries := 0, data := 65 + i\<rparr>;
          sk1 = sk\<lparr>segments := (segments sk)[k := seg]\<rparr>;
          sk2 = sk1\<lparr>snd_nxt := snd_nxt sk1 + ucast (len seg)\<rparr>;
          sk3 = snd (tcp_transmit_skb sk2 seg)
      in sk3\<lparr>num_segments := num_segments sk3 + 1\<rparr>)"

text \<open>
  The loop \<open>for (i = 0; i < MAX_SEGMENTS && cwnd_avail >= mss; i++)\<close>. Its guard
  looks at the counter \<open>i\<close> of this call only, so the slot index \<open>num_segments\<close> is
  checked against the array bound here: the store through \<open>seg\<close> outside the array is
  the fault. \<open>cwnd_avail -= seg->len\<close> subtracts the length just stored in the
  segment, which is \<open>mss = TCP_MSS\<close> (it fits the 16-bit field).
\<close>

function write_xmit_loop :: "8 word \<Rightarrow> 32 word \<Rightarrow> tcp_sock \<Rightarrow> fault + tcp_sock" where
  "write_xmit_loop i cwnd_avail sk =
     (if unat i < MAX_SEGMENTS \<and> of_nat TCP_MSS \<le> cwnd_avail then
        (if MAX_SEGMENTS \<le> unat (num_segments sk)
         then Inl (ArrayIndexOutOfBounds (unat (num_segments sk)))
         else write_xmit_loop (i + 1) (cwnd_avail - of_nat TCP_MSS) (write_xmit_body i sk))
      else Inr sk)"
  by pat_completeness auto
termination
proof (relation "measure (\<lambda>(i, c, sk). MAX_SEGMENTS - unat i)")
  show "wf (measure (\<lambda>(i :: 8 word, c :: 32 word, sk :: tcp_sock). MAX_SEGMENTS - unat i))"
    by simp
next
  fix i :: "8 word" and cwnd_avail :: "32 word" and sk :: tcp_sock
  assume "unat i < MAX_SEGMENTS \<and> of_nat TCP_MSS \<le> cwnd_avail"
  then have "unat i < 32" by (simp add: MAX_SEGMENTS_def)
  then have "unat (i + 1) = unat i + 1"
    by (simp add: unat_word_ariths)
  with \<open>unat i < 32\<close>
  show "((i + 1, cwnd_avail - of_nat TCP_MSS, write_xmit_body i sk), (i, cwnd_avail, sk))
        \<in> measure (\<lambda>(i, c, sk). MAX_SEGMENTS - unat i)"
    by (simp add: MAX_SEGMENTS_def)
qed

definition tcp_write_xmit :: "tcp_sock \<Rightarrow> fault + tcp_sock" where
  "tcp_write_xmit sk = write_xmit_loop 0 (cwnd sk) sk"

subsection \<open>tcp_retransmit_timer\<close>

text \<open>
  The body of the loop over the slots below \<open>num_segments\<close>: the segment in slot \<open>i\<close>
  is handed to \<open>tcp_retransmit_skb\<close> when its \<open>seq\<close> is below \<open>snd_una\<close>, and what
  that call did to the segment is stored back in the slot.
\<close>

definition retransmit_body :: "8 word \<Rightarrow> tcp_sock \<Rightarrow> tcp_sock" where
  "retransmit_body i sk =
     (let seg = segments sk ! unat i
      in if seq seg < snd_una sk
         then (case tcp_retransmit_skb sk seg of
                 (sk1, seg1) \<Rightarrow> sk1\<lparr>segments := (segments sk1)[unat i := seg1]\<rparr>)
         else sk)"

function retransmit_loop :: "8 word \<Rightarrow> tcp_sock \<Rightarrow> fault + tcp_sock" where
  "retransmit_loop i sk =
     (if i < num_segments sk then
        (if MAX_SEGMENTS \<le> unat i then Inl (ArrayIndexOutOfBounds (unat i))
         else retransmit_loop (i + 1) (retransmit_body i sk))
      else Inr sk)"
  by pat_completeness auto
termination
proof (relation "measure (\<lambda>(i, sk). 256 - unat i)")
  show "wf (measure (\<lambda>(i :: 8 word, sk :: tcp_sock). 256 - unat i))"
    by simp
next
  fix i :: "8 word" and sk :: tcp_sock
  assume "i < num_segments sk" and "\<not> MAX_SEGMENTS \<le> unat i"
  then have "unat i < 32" by (simp add: MAX_SEGMENTS_def)
  then have "unat (i + 1) = unat i + 1"
    by (simp add: unat_word_ariths)
  with \<open>unat i < 32\<close>
  show "((i + 1, retransmit_body i sk), (i, sk)) \<in> measure (\<lambda>(i, sk). 256 - unat i)"
    by simp
qed

definition tcp_retransmit_timer :: "tcp_sock \<Rightarrow> fault + tcp_sock" where
  "tcp_retransmit_timer sk =
     (let sk1 = (if \<not> in_recovery sk then tcp_enter_recovery sk else sk)
      in case retransmit_loop 0 sk1 of
           Inl f \<Rightarrow> Inl f
         | Inr sk2 \<Rightarrow> Inr (sk2\<lparr>timeouts := timeouts sk2 + 1\<rparr>))"

subsection \<open>tcp_cwnd_event\<close>

text \<open>
  \<open>event\<close> is a C \<open>int\<close>; the \<open>switch\<close> has no default, so any other value changes
  nothing. In case 2 the quotient \<open>TCP_MSS * TCP_MSS / sk->cwnd\<close> is an unsigned
  32-bit division, undefined for \<open>cwnd = 0\<close>.
\<close>

definition tcp_cwnd_event :: "tcp_sock \<Rightarrow> int \<Rightarrow> fault + tcp_sock" where
  "tcp_cwnd_event sk event =
     (if event = 0 then
        (if \<not> in_recovery sk then
           (let sk1 = sk\<lparr>ssthresh := cwnd sk div 2\<rparr>;
                sk2 = sk1\<lparr>cwnd := ssthresh sk1 + 3 * of_nat TCP_MSS\<rparr>
            in Inr (tcp_enter_recovery sk2))
         else Inr sk)
      else if event = 1 then
        (let sk1 = sk\<lparr>ssthresh := cwnd sk div 2\<rparr>
         in Inr (sk1\<lparr>cwnd := of_nat TCP_MSS\<rparr>))
      else if event = 2 then
        (if cwnd sk < ssthresh sk then Inr (sk\<lparr>cwnd := cwnd sk + of_nat TCP_MSS\<rparr>)
         else if cwnd sk = 0 then Inl DivisionByZero
         else Inr (sk\<lparr>cwnd := cwnd sk + of_nat (TCP_MSS * TCP_MSS) div cwnd sk\<rparr>))
      else Inr sk)"

subsection \<open>tcp_update_rtt\<close>

text \<open>
  \<open>err\<close> is the 32-bit difference read as a signed \<open>int32_t\<close> (two's complement,
  as every mainstream compiler converts it). \<open>err >> 3\<close> shifts a signed value, so
  it is the arithmetic shift \<open>signed_drop_bit\<close>. In
  \<open>(abs(err) - sk->rttvar) >> 2\<close> the operand \<open>sk->rttvar\<close> is a \<open>uint32_t\<close>, so the
  \<open>int\<close> returned by \<open>abs\<close> is converted to unsigned, the difference wraps, and
  the shift of that unsigned value is the logical shift \<open>drop_bit\<close>.
  \<open>abs\<close> is undefined at \<open>INT_MIN\<close>.
\<close>

definition abs_int32 :: "32 word \<Rightarrow> 32 word" where
  "abs_int32 e = (if sint e < 0 then - e else e)"

definition tcp_update_rtt :: "tcp_sock \<Rightarrow> 32 word \<Rightarrow> fault + tcp_sock" where
  "tcp_update_rtt sk rtt =
     (let err = rtt - srtt sk;
          sk1 = sk\<lparr>srtt := srtt sk + signed_drop_bit 3 err\<rparr>
      in if sint err = - (2 ^ 31) then Inl AbsOfIntMin
         else
           let sk2 = sk1\<lparr>rttvar := rttvar sk1 + drop_bit 2 (abs_int32 err - rttvar sk1)\<rparr>;
               sk3 = sk2\<lparr>rto := srtt sk2 + push_bit 2 (rttvar sk2)\<rparr>;
               sk4 = (if rto sk3 < of_nat RTO_MIN then sk3\<lparr>rto := of_nat RTO_MIN\<rparr> else sk3);
               sk5 = (if of_nat RTO_MAX < rto sk4 then sk4\<lparr>rto := of_nat RTO_MAX\<rparr> else sk4)
           in Inr sk5)"

subsection \<open>tcp_clean_rtx_queue\<close>

text \<open>
  \<open>memmove(&segments[i], &segments[i + 1], (n - i - 1) * sizeof(*seg))\<close>: the slots
  \<open>i + 1 .. n - 1\<close> are copied one place down; slot \<open>n - 1\<close> and everything above it
  keep their contents.
\<close>

definition memmove_down :: "'a list \<Rightarrow> nat \<Rightarrow> nat \<Rightarrow> 'a list" where
  "memmove_down xs i n = take i xs @ take (n - i - 1) (drop (i + 1) xs) @ drop (n - 1) xs"

text \<open>
  The \<open>while\<close> loop. \<open>seg->seq + seg->len\<close> is a 32-bit unsigned sum (\<open>len\<close> is
  widened from 16 bits) and wraps. \<open>i < sk->num_segments - 1\<close> is compared in
  \<open>int\<close>. The read of \<open>segments[i]\<close> and the block that \<open>memmove\<close> reads must lie
  inside the array.
\<close>

function clean_loop :: "8 word \<Rightarrow> tcp_sock \<Rightarrow> 32 word \<Rightarrow> fault + tcp_sock" where
  "clean_loop i sk a =
     (if i < num_segments sk then
        (if MAX_SEGMENTS \<le> unat i then Inl (ArrayIndexOutOfBounds (unat i))
         else
           let seg = segments sk ! unat i
           in if seq seg + ucast (len seg) \<le> a then
                (if uint i < uint (num_segments sk) - 1 then
                   (if MAX_SEGMENTS < unat (num_segments sk)
                    then Inl (ArrayIndexOutOfBounds (unat (num_segments sk) - 1))
                    else clean_loop i
                           (sk\<lparr>segments := memmove_down (segments sk) (unat i)
                                              (unat (num_segments sk)),
                               num_segments := num_segments sk - 1\<rparr>) a)
                 else clean_loop i (sk\<lparr>num_segments := num_segments sk - 1\<rparr>) a)
              else clean_loop (i + 1) sk a)
      else Inr sk)"
  by pat_completeness auto
termination
proof (relation "measure (\<lambda>(i, sk, a). unat (num_segments sk) - unat i)")
  show "wf (measure (\<lambda>(i :: 8 word, sk :: tcp_sock, a :: 32 word).
          unat (num_segments sk) - unat i))"
    by simp
next
  fix i :: "8 word" and sk :: tcp_sock and a :: "32 word"
  assume "i < num_segments sk"
  then have "unat i < unat (num_segments sk)" by (simp add: word_less_nat_alt)
  moreover from this have "num_segments sk \<noteq> 0" by auto
  then have "unat (num_segments sk - 1) = unat (num_segments sk) - 1"
    by (rule unat_minus_one)
  ultimately show "((i, sk\<lparr>segments := memmove_down (segments sk) (unat i)
                       (unat (num_segments sk)),
                     num_segments := num_segments sk - 1\<rparr>, a), (i, sk, a))
        \<in> measure (\<lambda>(i, sk, a). unat (num_segments sk) - unat i)"
    by simp
next
  fix i :: "8 word" and sk :: tcp_sock and a :: "32 word"
  assume "i < num_segments sk"
  then have "unat i < unat (num_segments sk)" by (simp add: word_less_nat_alt)
  moreover from this have "num_segments sk \<noteq> 0" by auto
  then have "unat (num_segments sk - 1) = unat (num_segments sk) - 1"
    by (rule unat_minus_one)
  ultimately show "((i, sk\<lparr>num_segments := num_segments sk - 1\<rparr>, a), (i, sk, a))
        \<in> measure (\<lambda>(i, sk, a). unat (num_segments sk) - unat i)"
    by simp
next
  fix i :: "8 word" and sk :: tcp_sock and a :: "32 word"
  assume "i < num_segments sk" and "\<not> MAX_SEGMENTS \<le> unat i"
  then have lt: "unat i < unat (num_segments sk)" and "unat i < 32"
    by (simp_all add: word_less_nat_alt MAX_SEGMENTS_def)
  then have "unat (i + 1) = unat i + 1"
    by (simp add: unat_word_ariths)
  with lt show "((i + 1, sk, a), (i, sk, a))
        \<in> measure (\<lambda>(i, sk, a). unat (num_segments sk) - unat i)"
    by simp
qed

definition tcp_clean_rtx_queue :: "tcp_sock \<Rightarrow> 32 word \<Rightarrow> fault + tcp_sock" where
  "tcp_clean_rtx_queue sk a = clean_loop 0 sk a"

subsection \<open>tcp_ack_received\<close>

text \<open>
  The only test on the ACK number is \<open>ack > sk->snd_una\<close>. The RTT sample is the
  constant 100, taken when the socket is not in recovery. \<open>window\<close> is widened from
  16 to 32 bits when stored in \<open>rcv_wnd\<close>.
\<close>

definition tcp_ack_received :: "tcp_sock \<Rightarrow> 32 word \<Rightarrow> 16 word \<Rightarrow> fault + tcp_sock" where
  "tcp_ack_received sk a w =
     (if snd_una sk < a then
        (let sk1 = sk\<lparr>rcv_wnd := ucast w\<rparr>
         in case (if \<not> in_recovery sk1 then tcp_update_rtt sk1 100 else Inr sk1) of
              Inl f \<Rightarrow> Inl f
            | Inr sk2 \<Rightarrow>
                (case tcp_clean_rtx_queue sk2 a of
                   Inl f \<Rightarrow> Inl f
                 | Inr sk3 \<Rightarrow>
                     (case tcp_cwnd_event sk3 2 of
                        Inl f \<Rightarrow> Inl f
                      | Inr sk4 \<Rightarrow>
                          (let sk5 = (if in_recovery sk4 \<and> recover sk4 \<le> a
                                      then tcp_leave_recovery sk4 else sk4)
                           in Inr (sk5\<lparr>snd_una := a\<rparr>)))))
      else Inr sk)"

subsection \<open>Runs of the engine\<close>

text \<open>
  The calls a driver can make on a socket, and a run as the list of calls made in
  order, stopping at the first fault. \<open>store\<close> is the part of the array that is in
  use: the slots below \<open>num_segments\<close>.
\<close>

datatype event =
    OnAck "32 word" "16 word"
  | OnTimeout
  | WriteXmit
  | CwndEvent int

fun step :: "tcp_sock \<Rightarrow> event \<Rightarrow> fault + tcp_sock" where
  "step sk (OnAck a w) = tcp_ack_received sk a w"
| "step sk OnTimeout = tcp_retransmit_timer sk"
| "step sk WriteXmit = tcp_write_xmit sk"
| "step sk (CwndEvent e) = tcp_cwnd_event sk e"

fun run :: "tcp_sock \<Rightarrow> event list \<Rightarrow> fault + tcp_sock" where
  "run sk [] = Inr sk"
| "run sk (e # es) = (case step sk e of Inl f \<Rightarrow> Inl f | Inr sk1 \<Rightarrow> run sk1 es)"

definition store :: "tcp_sock \<Rightarrow> tcp_segment list" where
  "store sk = take (unat (num_segments sk)) (segments sk)"

text \<open>
  A socket is well formed when the array has its \<open>MAX_SEGMENTS\<close> slots and the
  count of used slots does not exceed it.
\<close>

definition sock_ok :: "tcp_sock \<Rightarrow> bool" where
  "sock_ok sk \<longleftrightarrow>
     length (segments sk) = MAX_SEGMENTS \<and> unat (num_segments sk) \<le> MAX_SEGMENTS"

text \<open>
  The bounds that every run from the initial socket keeps: the socket is well formed,
  \<open>rto\<close> lies between \<open>RTO_MIN\<close> and \<open>RTO_MAX\<close>, \<open>cwnd\<close> is at least one segment
  and \<open>ssthresh\<close> at least half a segment. The upper bounds say that the window
  arithmetic never wraps.
\<close>

definition basic_inv :: "tcp_sock \<Rightarrow> bool" where
  "basic_inv s \<longleftrightarrow>
     sock_ok s \<and>
     RTO_MIN \<le> unat (rto s) \<and> unat (rto s) \<le> RTO_MAX \<and>
     TCP_MSS \<le> unat (cwnd s) \<and> unat (cwnd s) \<le> 2 ^ 31 \<and>
     TCP_MSS div 2 \<le> unat (ssthresh s) \<and> unat (ssthresh s) \<le> 2 ^ 30"

text \<open>
  Runs in which the peer acknowledges only what was sent and the sequence numbers
  stay below \<open>2 ^ 32\<close>: an ACK number is admissible when it is not above \<open>snd_nxt\<close>,
  a \<open>tcp_write_xmit\<close> when the bytes it may send (at most \<open>cwnd\<close>) do not take
  \<open>snd_nxt\<close> past the 32 bits.
\<close>

fun admissible :: "tcp_sock \<Rightarrow> event \<Rightarrow> bool" where
  "admissible sk (OnAck a w) = (a \<le> snd_nxt sk)"
| "admissible sk WriteXmit = (unat (snd_nxt sk) + unat (cwnd sk) < 2 ^ 32)"
| "admissible sk OnTimeout = True"
| "admissible sk (CwndEvent e) = True"

fun admissible_run :: "tcp_sock \<Rightarrow> event list \<Rightarrow> bool" where
  "admissible_run sk [] = True"
| "admissible_run sk (e # es) =
     (admissible sk e \<and>
      (case step sk e of Inl f \<Rightarrow> True | Inr sk1 \<Rightarrow> admissible_run sk1 es))"

text \<open>
  The end of a segment in sequence space, as a natural number, and what the admissible
  runs keep: every tracked segment ends at or before \<open>snd_nxt\<close>; in recovery
  \<open>snd_una \<le> recover \<le> snd_nxt\<close> and no tracked segment straddles \<open>recover\<close>;
  a segment that has been retransmitted is found only in recovery, and it ends at or
  before \<open>recover\<close>.
\<close>

definition seg_end :: "tcp_segment \<Rightarrow> nat" where
  "seg_end g = unat (seq g) + unat (len g)"

definition karn_inv :: "tcp_sock \<Rightarrow> bool" where
  "karn_inv s \<longleftrightarrow>
     sock_ok s \<and> snd_una s \<le> snd_nxt s \<and>
     (\<forall>g \<in> set (store s). seg_end g \<le> unat (snd_nxt s)) \<and>
     (in_recovery s \<longrightarrow>
        snd_una s \<le> recover s \<and> recover s \<le> snd_nxt s \<and>
        (\<forall>g \<in> set (store s). seg_end g \<le> unat (recover s) \<or> recover s \<le> seq g)) \<and>
     (\<forall>g \<in> set (store s). retries g \<noteq> 0 \<longrightarrow>
        in_recovery s \<and> seg_end g \<le> unat (recover s))"

section \<open>Evaluation of the model\<close>

text \<open>
  The loop equations are applied on demand only. \<open>sock_eval\<close> collects what the
  simplifier needs to run the model on a concrete socket.
\<close>

declare write_xmit_loop.simps [simp del]
declare retransmit_loop.simps [simp del]
declare clean_loop.simps [simp del]

lemma replicate_numeral: "replicate (numeral v) x = x # replicate (numeral v - 1) x"
  by (simp add: numeral_eq_Suc)

lemma list_update_Cons_numeral: "(x # xs)[numeral v := y] = x # xs[numeral v - 1 := y]"
  by (simp add: numeral_eq_Suc)

lemmas tcp_consts =
  TCP_MAX_WINDOW_def TCP_MSS_def MAX_SEGMENTS_def MAX_RETRIES_def RTO_MIN_def
  RTO_MAX_def INIT_CWND_def INIT_SSTHRESH_def TCP_ACK_def TCP_ESTABLISHED_def

lemmas sock_eval =
  replicate_numeral list_update_Cons_numeral
  initial_sock_def tcp_sock_create_def zero_sock_def zero_segment_def tcp_consts Let_def
  tcp_write_xmit_def write_xmit_body_def write_xmit_loop.simps tcp_transmit_skb_def
  tcp_retransmit_timer_def retransmit_loop.simps retransmit_body_def tcp_retransmit_skb_def
  tcp_enter_recovery_def tcp_leave_recovery_def tcp_cwnd_event_def tcp_update_rtt_def
  abs_int32_def tcp_clean_rtx_queue_def clean_loop.simps memmove_down_def
  tcp_ack_received_def store_def

section \<open>The loops\<close>

subsection \<open>The loop of tcp_clean_rtx_queue\<close>

text \<open>
  On a well-formed socket the loop started at slot \<open>i\<close> does not fault, keeps the
  slots below \<open>i\<close>, and of the slots from \<open>i\<close> on it keeps, in order, the segments
  that the ACK number does not cover. It writes no field other than \<open>segments\<close>
  and \<open>num_segments\<close>.
\<close>

lemma uint_less_pred: "uint (i :: 'a::len word) < uint (n :: 'a word) - 1 \<longleftrightarrow> Suc (unat i) < unat n"
proof -
  have "uint i = int (unat i)" "uint n = int (unat n)" by (rule uint_nat)+
  then show ?thesis by (simp only:) arith
qed

lemma store_memmove_down:
  assumes "i < n" "n \<le> length xs"
  shows "take (n - 1) (memmove_down xs i n) = take i xs @ drop (Suc i) (take n xs)"
proof -
  from assms have "length (take i xs) = i" by simp
  then have "take (n - 1) (memmove_down xs i n)
      = take i xs @ take (n - 1 - i) (take (n - i - 1) (drop (i + 1) xs) @ drop (n - 1) xs)"
    using assms unfolding memmove_down_def by simp
  also have "\<dots> = take i xs @ take (n - i - 1) (drop (i + 1) xs)"
    using assms by simp
  also have "\<dots> = take i xs @ drop (Suc i) (take n xs)"
    using assms by (simp add: drop_take)
  finally show ?thesis .
qed

lemma length_memmove_down:
  assumes "i < n" "n \<le> length xs"
  shows "length (memmove_down xs i n) = length xs"
  using assms by (simp add: memmove_down_def)

lemma clean_loop_spec:
  assumes "sock_ok sk" "unat i \<le> unat (num_segments sk)"
  shows "\<exists>sk'. clean_loop i sk a = Inr sk' \<and> sock_ok sk' \<and>
           store sk' = take (unat i) (store sk) @
                       filter (\<lambda>g. \<not> seq g + ucast (len g) \<le> a) (drop (unat i) (store sk)) \<and>
           sk'\<lparr>segments := segments sk, num_segments := num_segments sk\<rparr> = sk"
  using assms
proof (induction i sk a rule: clean_loop.induct)
  case (1 i sk a)
  let ?n = "unat (num_segments sk)"
  let ?P = "\<lambda>g. \<not> seq g + ucast (len g) \<le> a"
  from "1.prems" have len: "length (segments sk) = 32" and n32: "?n \<le> 32"
    by (simp_all add: sock_ok_def MAX_SEGMENTS_def)
  show ?case
  proof (cases "i < num_segments sk")
    case False
    with "1.prems" have "unat i = ?n" by (simp add: word_less_nat_alt)
    with False "1.prems" show ?thesis
      by (simp add: clean_loop.simps [of i sk a] store_def)
  next
    case True
    then have lt: "unat i < ?n" by (simp add: word_less_nat_alt)
    with n32 have inb: "\<not> MAX_SEGMENTS \<le> unat i" by (simp add: MAX_SEGMENTS_def)
    from lt have nz: "num_segments sk \<noteq> 0" by auto
    then have pred: "unat (num_segments sk - 1) = ?n - 1" by (rule unat_minus_one)
    from lt len n32 have nth: "store sk ! unat i = segments sk ! unat i"
      by (simp add: store_def)
    from lt len n32 have lst: "length (store sk) = ?n" by (simp add: store_def)
    with lt have dr: "drop (unat i) (store sk) = store sk ! unat i # drop (Suc (unat i)) (store sk)"
      by (simp add: Cons_nth_drop_Suc)
    show ?thesis
    proof (cases "seq (segments sk ! unat i) + ucast (len (segments sk ! unat i)) \<le> a")
      case cov: True
      show ?thesis
      proof (cases "uint i < uint (num_segments sk) - 1")
        case mv: True
        let ?sk1 = "sk\<lparr>segments := memmove_down (segments sk) (unat i) ?n,
                        num_segments := num_segments sk - 1\<rparr>"
        from mv have lt1: "unat i < ?n - 1" by (simp add: uint_less_pred)
        have nb: "\<not> MAX_SEGMENTS < ?n" using n32 by (simp add: MAX_SEGMENTS_def)
        have ok1: "sock_ok ?sk1"
          using lt n32 len pred by (simp add: sock_ok_def length_memmove_down MAX_SEGMENTS_def)
        have st1: "store ?sk1 = take (unat i) (store sk) @ drop (Suc (unat i)) (store sk)"
          using store_memmove_down [of "unat i" ?n "segments sk"] lt n32 len pred
          by (simp add: store_def min_def)
        from "1.IH"(1) [OF True inb refl cov mv nb ok1] lt1 pred
        obtain sk' where r: "clean_loop i ?sk1 a = Inr sk'" and ok': "sock_ok sk'"
          and st': "store sk' = take (unat i) (store ?sk1) @ filter ?P (drop (unat i) (store ?sk1))"
          and fr: "sk'\<lparr>segments := segments ?sk1, num_segments := num_segments ?sk1\<rparr> = ?sk1"
          by auto
        have "clean_loop i sk a = Inr sk'"
          using True inb cov mv nb r by (subst clean_loop.simps) (simp add: Let_def)
        moreover have "store sk' = take (unat i) (store sk) @ filter ?P (drop (unat i) (store sk))"
          using st' st1 lt lst cov nth by (subst dr) (simp add: min_def)
        moreover have "sk'\<lparr>segments := segments sk, num_segments := num_segments sk\<rparr> = sk"
          using fr by (cases sk', cases sk) simp
        ultimately show ?thesis using ok' by blast
      next
        case nomv: False
        let ?sk1 = "sk\<lparr>num_segments := num_segments sk - 1\<rparr>"
        from nomv lt have eq: "unat i = ?n - 1" by (simp add: uint_less_pred)
        have ok1: "sock_ok ?sk1"
          using lt n32 len pred by (simp add: sock_ok_def MAX_SEGMENTS_def)
        have st1: "store ?sk1 = take (unat i) (store sk)"
          using lt n32 len pred eq by (simp add: store_def min_def)
        from "1.IH"(2) [OF True inb refl cov nomv ok1] eq pred
        obtain sk' where r: "clean_loop i ?sk1 a = Inr sk'" and ok': "sock_ok sk'"
          and st': "store sk' = take (unat i) (store ?sk1) @ filter ?P (drop (unat i) (store ?sk1))"
          and fr: "sk'\<lparr>segments := segments ?sk1, num_segments := num_segments ?sk1\<rparr> = ?sk1"
          by auto
        have "clean_loop i sk a = Inr sk'"
          using True inb cov nomv r by (subst clean_loop.simps) (simp add: Let_def)
        moreover have "store sk' = take (unat i) (store sk) @ filter ?P (drop (unat i) (store sk))"
          using st' st1 lt lst cov nth eq by (subst dr) (simp add: min_def)
        moreover have "sk'\<lparr>segments := segments sk, num_segments := num_segments sk\<rparr> = sk"
          using fr by (cases sk', cases sk) simp
        ultimately show ?thesis using ok' by blast
      qed
    next
      case ncov: False
      from lt n32 have i1: "unat (i + 1) = Suc (unat i)" by (simp add: unat_word_ariths)
      with lt have le1: "unat (i + 1) \<le> ?n" by simp
      from "1.IH"(3) [OF True inb refl ncov "1.prems"(1) le1]
      obtain sk' where r: "clean_loop (i + 1) sk a = Inr sk'" and ok': "sock_ok sk'"
        and st': "store sk' = take (unat (i + 1)) (store sk) @ filter ?P (drop (unat (i + 1)) (store sk))"
        and fr: "sk'\<lparr>segments := segments sk, num_segments := num_segments sk\<rparr> = sk"
        by auto
      have "clean_loop i sk a = Inr sk'"
        using True inb ncov r by (subst clean_loop.simps) (simp add: Let_def)
      moreover have "store sk' = take (unat i) (store sk) @ filter ?P (drop (unat i) (store sk))"
        using st' i1 lt lst ncov nth by (subst dr) (simp add: take_Suc_conv_app_nth)
      ultimately show ?thesis using ok' fr by blast
    qed
  qed
qed

subsection \<open>The loop of tcp_retransmit_timer\<close>

text \<open>
  What one pass of the loop does, an invariant rule for the loop, and the fact that it
  does not fault on a well-formed socket.
\<close>

lemma retransmit_body_eq:
  "retransmit_body j s =
     (let g = segments s ! unat j
      in if seq g < snd_una s \<and> unat (retries g) < MAX_RETRIES
         then s\<lparr>packets_sent := packets_sent s + 1,
                bytes_sent := bytes_sent s + ucast (len g),
                retransmits := retransmits s + 1,
                rto := (if rto s * 2 < of_nat RTO_MAX then rto s * 2 else of_nat RTO_MAX),
                segments := (segments s)[unat j := g\<lparr>retrans := True, retries := retries g + 1\<rparr>]\<rparr>
         else s)"
  by (simp add: retransmit_body_def tcp_retransmit_skb_def tcp_transmit_skb_def Let_def not_le)

lemma retransmit_body_skip:
  "\<not> (seq (segments s ! unat j) < snd_una s \<and> unat (retries (segments s ! unat j)) < MAX_RETRIES)
   \<Longrightarrow> retransmit_body j s = s"
  by (auto simp: retransmit_body_eq Let_def)

lemma retransmit_loop_rule:
  assumes "retransmit_loop i sk = Inr sk'" and "P i sk"
    and "\<And>j s. P j s \<Longrightarrow> j < num_segments s \<Longrightarrow> unat j < MAX_SEGMENTS
           \<Longrightarrow> P (j + 1) (retransmit_body j s)"
  shows "\<exists>j. P j sk'"
  using assms(1,2)
proof (induction i sk rule: retransmit_loop.induct)
  case (1 i sk)
  show ?case
  proof (cases "i < num_segments sk")
    case False
    with "1.prems" show ?thesis by (auto simp: retransmit_loop.simps [of i sk])
  next
    case True
    with "1.prems"(1) have inb: "\<not> MAX_SEGMENTS \<le> unat i"
      and r: "retransmit_loop (i + 1) (retransmit_body i sk) = Inr sk'"
      by (auto simp: retransmit_loop.simps [of i sk] split: if_splits)
    from inb have "unat i < MAX_SEGMENTS" by simp
    from assms(3) [OF "1.prems"(2) True this] "1.IH" [OF True inb r]
    show ?thesis by blast
  qed
qed

lemma retransmit_body_ok:
  "sock_ok s \<Longrightarrow> sock_ok (retransmit_body j s)"
  by (simp add: retransmit_body_eq Let_def sock_ok_def)

lemma retransmit_loop_total:
  assumes "sock_ok sk"
  shows "\<exists>sk'. retransmit_loop i sk = Inr sk'"
  using assms
proof (induction i sk rule: retransmit_loop.induct)
  case (1 i sk)
  show ?case
  proof (cases "i < num_segments sk")
    case False
    then show ?thesis by (simp add: retransmit_loop.simps [of i sk])
  next
    case True
    then have "unat i < unat (num_segments sk)" by (simp add: word_less_nat_alt)
    with "1.prems" have inb: "\<not> MAX_SEGMENTS \<le> unat i" by (simp add: sock_ok_def)
    from "1.IH" [OF True inb retransmit_body_ok [OF "1.prems"]] True inb
    show ?thesis by (simp add: retransmit_loop.simps [of i sk])
  qed
qed

lemma backoff_unat:
  fixes r :: "32 word"
  assumes "unat r \<le> RTO_MAX"
  shows "unat (if r * 2 < of_nat RTO_MAX then r * 2 else of_nat RTO_MAX) = min (unat r * 2) RTO_MAX"
proof -
  from assms have "unat r * 2 < 2 ^ 32" by (simp add: RTO_MAX_def)
  then have "unat (r * 2) = unat r * 2"
    by (simp add: unat_word_ariths)
  then show ?thesis
    by (simp add: word_less_nat_alt RTO_MAX_def min_def)
qed

lemma timer_rto:
  assumes "retransmit_loop i sk = Inr sk'" "unat (rto sk) \<le> RTO_MAX" "unat i \<le> MAX_SEGMENTS"
  shows "unat (rto sk') = min (unat (rto sk) * 2 ^ unat (retransmits sk' - retransmits sk)) RTO_MAX
         \<and> unat (retransmits sk' - retransmits sk) \<le> MAX_SEGMENTS"
proof -
  let ?P = "\<lambda>j s. unat (rto s) = min (unat (rto sk) * 2 ^ unat (retransmits s - retransmits sk)) RTO_MAX
         \<and> unat (retransmits s - retransmits sk) \<le> unat j \<and> unat j \<le> MAX_SEGMENTS"
  have P0: "?P i sk" using assms(2,3) by simp
  have step: "?P (j + 1) (retransmit_body j s)"
    if "?P j s" "j < num_segments s" "unat j < MAX_SEGMENTS" for j s
  proof -
    from that(3) have j1: "unat (j + 1) = unat j + 1"
      by (simp add: unat_word_ariths MAX_SEGMENTS_def)
    let ?k = "retransmits s - retransmits sk"
    from that(1,3) have "unat ?k < 32" by (simp add: MAX_SEGMENTS_def)
    then have k1: "unat (?k + 1) = unat ?k + 1" by (simp add: unat_word_ariths)
    have k1': "retransmits s + 1 - retransmits sk = ?k + 1" by simp
    have k2: "unat (retransmits s + 1 - retransmits sk) = Suc (unat ?k)"
      by (metis k1 k1' Suc_eq_plus1)
    from that(1) have le: "unat (rto s) \<le> RTO_MAX" by simp
    have bo: "unat (if rto s * 2 < of_nat RTO_MAX then rto s * 2 else of_nat RTO_MAX)
        = min (unat (rto sk) * 2 ^ (unat ?k + 1)) RTO_MAX"
      using that(1) by (simp only: backoff_unat [OF le]) (simp add: min_def)
    show ?thesis
    proof (cases "seq (segments s ! unat j) < snd_una s \<and> unat (retries (segments s ! unat j)) < MAX_RETRIES")
      case True
      then have "rto (retransmit_body j s) = (if rto s * 2 < of_nat RTO_MAX then rto s * 2 else of_nat RTO_MAX)"
        and "retransmits (retransmit_body j s) = retransmits s + 1"
        by (simp_all add: retransmit_body_eq Let_def)
      with bo k2 j1 that(1,3) show ?thesis by simp
    next
      case False
      then have "retransmit_body j s = s" by (rule retransmit_body_skip)
      with j1 that(1,3) show ?thesis by simp
    qed
  qed
  from retransmit_loop_rule [where P = ?P, OF assms(1) P0 step]
  show ?thesis by auto
qed

section \<open>What every run keeps\<close>

text \<open>
  An invariant rule for the loop of \<open>tcp_write_xmit\<close>, what one pass of its body
  does, and the proof that each call of the engine takes a socket satisfying
  \<open>basic_inv\<close> to one that satisfies it, unless the call faults.
\<close>

lemma basic_inv_initial: "basic_inv initial_sock"
  by (simp add: basic_inv_def sock_ok_def initial_sock_def tcp_sock_create_def zero_sock_def tcp_consts)

lemma write_xmit_loop_rule:
  assumes "write_xmit_loop i c sk = Inr sk'" and "P i c sk"
    and "\<And>j d s. P j d s \<Longrightarrow> unat j < MAX_SEGMENTS \<Longrightarrow> of_nat TCP_MSS \<le> d
           \<Longrightarrow> unat (num_segments s) < MAX_SEGMENTS
           \<Longrightarrow> P (j + 1) (d - of_nat TCP_MSS) (write_xmit_body j s)"
  shows "\<exists>j d. P j d sk'"
  using assms(1,2)
proof (induction i c sk rule: write_xmit_loop.induct)
  case (1 i c sk)
  show ?case
  proof (cases "unat i < MAX_SEGMENTS \<and> of_nat TCP_MSS \<le> c")
    case False
    with "1.prems" show ?thesis by (auto simp: write_xmit_loop.simps [of i c sk])
  next
    case True
    with "1.prems"(1) have inb: "\<not> MAX_SEGMENTS \<le> unat (num_segments sk)"
      and r: "write_xmit_loop (i + 1) (c - of_nat TCP_MSS) (write_xmit_body i sk) = Inr sk'"
      by (auto simp: write_xmit_loop.simps [of i c sk] split: if_splits)
    from inb have "unat (num_segments sk) < MAX_SEGMENTS" by simp
    from assms(3) [OF "1.prems"(2) _ _ this] True "1.IH" [OF True inb r]
    show ?thesis by blast
  qed
qed

lemma write_xmit_body_eq:
  "write_xmit_body j s =
     s\<lparr>segments := (segments s)[unat (num_segments s) :=
          (segments s ! unat (num_segments s))
            \<lparr>seq := snd_nxt s, ack := rcv_nxt s, window := ucast (rcv_wnd s),
             flags := 16, mss := 1460, len := 1460,
             retrans := False, retries := 0, data := 65 + j\<rparr>],
       snd_nxt := snd_nxt s + 1460,
       packets_sent := packets_sent s + 1,
       bytes_sent := bytes_sent s + 1460,
       num_segments := num_segments s + 1\<rparr>"
  by (simp add: write_xmit_body_def tcp_transmit_skb_def Let_def TCP_MSS_def TCP_ACK_def)

lemma unat_num_segments_Suc:
  fixes n :: "8 word"
  assumes "unat n < MAX_SEGMENTS"
  shows "unat (n + 1) = Suc (unat n)"
  using assms by (simp add: unat_word_ariths MAX_SEGMENTS_def)

lemma write_xmit_body_inv:
  assumes "basic_inv s" "unat (num_segments s) < MAX_SEGMENTS"
  shows "basic_inv (write_xmit_body j s)"
  using assms unat_num_segments_Suc [OF assms(2)]
  by (simp add: write_xmit_body_eq basic_inv_def sock_ok_def)

lemma write_xmit_inv:
  assumes "basic_inv s" "tcp_write_xmit s = Inr s'"
  shows "basic_inv s'"
proof -
  from assms(2) have r: "write_xmit_loop 0 (cwnd s) s = Inr s'" by (simp add: tcp_write_xmit_def)
  from write_xmit_loop_rule [where P = "\<lambda>j d s. basic_inv s", OF r assms(1)] write_xmit_body_inv
  show ?thesis by blast
qed

lemma retransmit_body_inv:
  assumes "basic_inv s"
  shows "basic_inv (retransmit_body j s)"
proof (cases "seq (segments s ! unat j) < snd_una s \<and> unat (retries (segments s ! unat j)) < MAX_RETRIES")
  case False
  then show ?thesis using assms by (simp add: retransmit_body_skip)
next
  case True
  from assms have le: "unat (rto s) \<le> RTO_MAX" and ge: "RTO_MIN \<le> unat (rto s)"
    by (simp_all add: basic_inv_def)
  from backoff_unat [OF le] ge
  have "RTO_MIN \<le> unat (if rto s * 2 < of_nat RTO_MAX then rto s * 2 else of_nat RTO_MAX)"
    and "unat (if rto s * 2 < of_nat RTO_MAX then rto s * 2 else of_nat RTO_MAX) \<le> RTO_MAX"
    by (simp_all add: RTO_MIN_def RTO_MAX_def)
  with True assms show ?thesis
    by (simp add: retransmit_body_eq Let_def basic_inv_def sock_ok_def)
qed

lemma retransmit_timer_inv:
  assumes "basic_inv s" "tcp_retransmit_timer s = Inr s'"
  shows "basic_inv s'"
proof -
  let ?s1 = "if \<not> in_recovery s then tcp_enter_recovery s else s"
  have b1: "basic_inv ?s1" using assms(1)
    by (simp add: basic_inv_def sock_ok_def tcp_enter_recovery_def)
  show ?thesis
  proof (cases "retransmit_loop 0 ?s1")
    case (Inl f)
    with assms(2) show ?thesis by (simp add: tcp_retransmit_timer_def Let_def)
  next
    case r: (Inr s2)
    from retransmit_loop_rule [where P = "\<lambda>j s. basic_inv s", OF r b1] retransmit_body_inv
    have "basic_inv s2" by blast
    moreover from r assms(2) have "s' = s2\<lparr>timeouts := timeouts s2 + 1\<rparr>"
      by (simp add: tcp_retransmit_timer_def Let_def)
    ultimately show ?thesis by (simp add: basic_inv_def sock_ok_def)
  qed
qed

lemma cwnd_event_inv_case:
  assumes "basic_inv s"
  shows "case tcp_cwnd_event s e of Inl f \<Rightarrow> True | Inr s' \<Rightarrow> basic_inv s'"
proof -
  let ?c = "unat (cwnd s)"
  from assms(1) have c: "1460 \<le> ?c" "?c \<le> 2 ^ 31"
    and t: "730 \<le> unat (ssthresh s)" "unat (ssthresh s) \<le> 2 ^ 30"
    by (simp_all add: basic_inv_def TCP_MSS_def)
  have half: "unat (cwnd s div 2) = ?c div 2" by (simp add: unat_div)
  from c have half_b: "730 \<le> ?c div 2" "?c div 2 \<le> 2 ^ 30" by simp_all
  have dup: "unat (cwnd s div 2 + 4380) = ?c div 2 + 4380"
    using half half_b by (simp add: unat_word_ariths)
  have q: "unat (2131600 div cwnd s) = 2131600 div ?c" by (simp add: unat_div)
  have qb: "2131600 div ?c \<le> 1460"
    using div_le_mono2 [of 1460 ?c 2131600] c by simp
  have q0: "2131600 div ?c = 0" if "2131600 < ?c" using that by simp
  have ca: "unat (cwnd s + 2131600 div cwnd s) = ?c + 2131600 div ?c"
    using q qb c by (simp add: unat_word_ariths)
  have ca_b: "?c + 2131600 div ?c \<le> 2 ^ 31"
    using qb q0 c by (cases "2131600 < ?c") simp_all
  have ss: "unat (cwnd s + 1460) = ?c + 1460" using c by (simp add: unat_word_ariths)
  have ss_b: "?c + 1460 \<le> 2 ^ 31" if "cwnd s < ssthresh s"
    using that t by (simp add: word_less_nat_alt)
  show ?thesis
    using assms half half_b dup ca ca_b ss ss_b
    by (simp add: tcp_cwnd_event_def Let_def basic_inv_def sock_ok_def tcp_enter_recovery_def
        TCP_MSS_def)
qed

lemma cwnd_event_inv:
  assumes "basic_inv s" "tcp_cwnd_event s e = Inr s'"
  shows "basic_inv s'"
  using cwnd_event_inv_case [OF assms(1), of e] assms(2) by simp


lemma update_rtt_inv_case:
  assumes "basic_inv s"
  shows "case tcp_update_rtt s m of Inl f \<Rightarrow> True | Inr s' \<Rightarrow> basic_inv s'"
  using assms
  by (simp add: tcp_update_rtt_def Let_def basic_inv_def sock_ok_def RTO_MIN_def RTO_MAX_def
      word_less_nat_alt)

lemma update_rtt_inv:
  assumes "basic_inv s" "tcp_update_rtt s m = Inr s'"
  shows "basic_inv s'"
  using update_rtt_inv_case [OF assms(1), of m] assms(2) by simp

lemma clean_rtx_queue_inv:
  assumes "basic_inv s" "tcp_clean_rtx_queue s a = Inr s'"
  shows "basic_inv s'"
proof -
  from assms(1) have ok: "sock_ok s" by (simp add: basic_inv_def)
  from clean_loop_spec [OF ok, of 0 a] assms(2)
  have ok': "sock_ok s'"
    and fr: "s'\<lparr>segments := segments s, num_segments := num_segments s\<rparr> = s"
    by (auto simp: tcp_clean_rtx_queue_def)
  from arg_cong [OF fr, of rto] arg_cong [OF fr, of cwnd] arg_cong [OF fr, of ssthresh]
  have "rto s' = rto s" "cwnd s' = cwnd s" "ssthresh s' = ssthresh s"
    by simp_all
  with ok' assms(1) show ?thesis by (simp add: basic_inv_def)
qed

lemma ack_received_inv:
  assumes "basic_inv s" "tcp_ack_received s a w = Inr s'"
  shows "basic_inv s'"
proof (cases "snd_una s < a")
  case False
  with assms show ?thesis by (simp add: tcp_ack_received_def)
next
  case True
  let ?s1 = "s\<lparr>rcv_wnd := ucast w\<rparr>"
  have b1: "basic_inv ?s1" using assms(1) by (simp add: basic_inv_def sock_ok_def)
  show ?thesis
  proof (cases "if \<not> in_recovery ?s1 then tcp_update_rtt ?s1 100 else Inr ?s1")
    case (Inl f)
    with True assms(2) show ?thesis by (simp add: tcp_ack_received_def Let_def)
  next
    case e2: (Inr s2)
    with b1 have b2: "basic_inv s2" by (auto dest: update_rtt_inv split: if_splits)
    show ?thesis
    proof (cases "tcp_clean_rtx_queue s2 a")
      case (Inl f)
      with True e2 assms(2) show ?thesis by (simp add: tcp_ack_received_def Let_def)
    next
      case e3: (Inr s3)
      with b2 have b3: "basic_inv s3" by (auto dest: clean_rtx_queue_inv)
      show ?thesis
      proof (cases "tcp_cwnd_event s3 2")
        case (Inl f)
        with True e2 e3 assms(2) show ?thesis by (simp add: tcp_ack_received_def Let_def)
      next
        case e4: (Inr s4)
        with b3 have b4: "basic_inv s4" by (auto dest: cwnd_event_inv)
        from True e2 e3 e4 assms(2)
        have "s' = (if in_recovery s4 \<and> recover s4 \<le> a then tcp_leave_recovery s4 else s4)
                     \<lparr>snd_una := a\<rparr>"
          by (simp add: tcp_ack_received_def Let_def)
        with b4 show ?thesis by (simp add: basic_inv_def sock_ok_def tcp_leave_recovery_def)
      qed
    qed
  qed
qed

lemma step_inv:
  assumes "basic_inv s" "step s e = Inr s'"
  shows "basic_inv s'"
  using assms
  by (cases e) (auto dest: ack_received_inv retransmit_timer_inv write_xmit_inv cwnd_event_inv)

lemma run_inv:
  assumes "basic_inv s" "run s es = Inr s'"
  shows "basic_inv s'"
  using assms
proof (induction es arbitrary: s)
  case Nil
  then show ?case by simp
next
  case (Cons e es)
  from Cons.prems(2) obtain s1 where "step s e = Inr s1" "run s1 es = Inr s'"
    by (auto split: sum.splits)
  with Cons.IH step_inv [OF Cons.prems(1)] show ?case by blast
qed

section \<open>What the admissible runs keep\<close>

text \<open>
  Each call of the engine takes a socket satisfying \<open>karn_inv\<close> to one that
  satisfies it, when the call is admissible and does not fault. An ACK processed in
  recovery takes no RTT sample.
\<close>

lemma karn_inv_cong:
  assumes "segments s' = segments s" "num_segments s' = num_segments s"
    "snd_una s' = snd_una s" "snd_nxt s' = snd_nxt s"
    "in_recovery s' = in_recovery s" "recover s' = recover s"
  shows "karn_inv s' = karn_inv s"
  using assms by (simp add: karn_inv_def sock_ok_def store_def)

lemma karn_inv_initial: "karn_inv initial_sock"
  by (simp add: karn_inv_def sock_ok_def store_def initial_sock_def tcp_sock_create_def
      zero_sock_def tcp_consts)

lemma store_write_xmit_body:
  assumes "sock_ok s" "unat (num_segments s) < MAX_SEGMENTS"
  shows "\<exists>g. store (write_xmit_body j s) = store s @ [g] \<and> seq g = snd_nxt s \<and> len g = 1460 \<and>
             retries g = 0"
proof -
  let ?n = "unat (num_segments s)"
  from assms have n: "?n < length (segments s)" by (simp add: sock_ok_def)
  from unat_num_segments_Suc [OF assms(2)] n
  show ?thesis
    by (simp add: write_xmit_body_eq store_def take_Suc_conv_app_nth)
qed

lemma write_xmit_body_karn:
  assumes "karn_inv s" "unat (num_segments s) < MAX_SEGMENTS" "unat (snd_nxt s) + 1460 < 2 ^ 32"
  shows "karn_inv (write_xmit_body j s)"
proof -
  let ?s' = "write_xmit_body j s"
  from assms(1) have ok: "sock_ok s" by (simp add: karn_inv_def)
  from store_write_xmit_body [OF ok assms(2), of j]
  obtain g where st: "store ?s' = store s @ [g]" and g: "seq g = snd_nxt s" "len g = 1460" "retries g = 0"
    by blast
  have nxt: "snd_nxt ?s' = snd_nxt s + 1460" by (simp add: write_xmit_body_eq)
  from assms(3) have un: "unat (snd_nxt s + 1460) = unat (snd_nxt s) + 1460"
    by (simp add: unat_word_ariths)
  then have mono: "snd_nxt s \<le> snd_nxt s + 1460" by (simp add: word_le_nat_alt)
  have ge: "seg_end g = unat (snd_nxt s) + 1460" using g by (simp add: seg_end_def)
  have fr: "snd_una ?s' = snd_una s" "in_recovery ?s' = in_recovery s" "recover ?s' = recover s"
    by (simp_all add: write_xmit_body_eq)
  have ok': "sock_ok ?s'"
    using ok assms(2) unat_num_segments_Suc [OF assms(2)]
    by (simp add: write_xmit_body_eq sock_ok_def)
  show ?thesis
    unfolding karn_inv_def st nxt fr
    using assms(1) ok' un mono ge g
    by (auto simp: karn_inv_def word_le_nat_alt)
qed

lemma write_xmit_karn:
  assumes "karn_inv s" "unat (snd_nxt s) + unat (cwnd s) < 2 ^ 32" "tcp_write_xmit s = Inr s'"
  shows "karn_inv s'"
proof -
  let ?P = "\<lambda>(j :: 8 word) (d :: 32 word) s. karn_inv s \<and> unat (snd_nxt s) + unat d < 2 ^ 32"
  from assms(3) have r: "write_xmit_loop 0 (cwnd s) s = Inr s'" by (simp add: tcp_write_xmit_def)
  have P0: "?P 0 (cwnd s) s" using assms(1,2) by simp
  have stp: "?P (j + 1) (d - of_nat TCP_MSS) (write_xmit_body j s)"
    if "?P j d s" "unat j < MAX_SEGMENTS" "of_nat TCP_MSS \<le> d"
       "unat (num_segments s) < MAX_SEGMENTS" for j d s
  proof -
    from that(3) have d: "1460 \<le> unat d" by (simp add: word_le_nat_alt TCP_MSS_def)
    then have d': "unat (d - 1460) = unat d - 1460" by (simp add: unat_sub word_le_nat_alt)
    from that(1) d have nw: "unat (snd_nxt s) + 1460 < 2 ^ 32" by simp
    then have un: "unat (snd_nxt s + 1460) = unat (snd_nxt s) + 1460"
      by (simp add: unat_word_ariths)
    have "snd_nxt (write_xmit_body j s) = snd_nxt s + 1460" by (simp add: write_xmit_body_eq)
    with write_xmit_body_karn [OF _ that(4) nw, of j] that(1) d d' un
    show ?thesis by (simp add: TCP_MSS_def)
  qed
  from write_xmit_loop_rule [where P = ?P, OF r P0 stp]
  show ?thesis by blast
qed

lemma store_retransmit_update:
  assumes "sock_ok s" "j < num_segments s"
  shows "store (s\<lparr>segments := (segments s)[unat j := g]\<rparr>) = (store s)[unat j := g]"
    and "segments s ! unat j = store s ! unat j"
    and "unat j < length (store s)"
proof -
  from assms have "unat j < unat (num_segments s)" "unat (num_segments s) \<le> length (segments s)"
    by (simp_all add: word_less_nat_alt sock_ok_def)
  then show "store (s\<lparr>segments := (segments s)[unat j := g]\<rparr>) = (store s)[unat j := g]"
    and "segments s ! unat j = store s ! unat j"
    and "unat j < length (store s)"
    by (simp_all add: store_def take_update_swap)
qed

lemma retransmit_body_karn:
  assumes "karn_inv s" "in_recovery s" "j < num_segments s"
  shows "karn_inv (retransmit_body j s) \<and> in_recovery (retransmit_body j s)"
proof (cases "seq (segments s ! unat j) < snd_una s \<and> unat (retries (segments s ! unat j)) < MAX_RETRIES")
  case False
  then show ?thesis using assms by (simp add: retransmit_body_skip)
next
  case True
  let ?g = "segments s ! unat j"
  let ?g' = "?g\<lparr>retrans := True, retries := retries ?g + 1\<rparr>"
  let ?s1 = "s\<lparr>segments := (segments s)[unat j := ?g']\<rparr>"
  let ?s' = "retransmit_body j s"
  from assms(1) have ok: "sock_ok s" by (simp add: karn_inv_def)
  note su = store_retransmit_update [OF ok assms(3)]
  from su(2,3) have gin: "?g \<in> set (store s)" by simp
  have sub: "set (store ?s1) \<subseteq> insert ?g' (set (store s))"
    unfolding su(1) by (rule set_update_subset_insert)
  have ge: "seg_end ?g' = seg_end ?g" "seq ?g' = seq ?g" by (simp_all add: seg_end_def)
  from assms(1,2) have rec: "snd_una s \<le> recover s" "recover s \<le> snd_nxt s"
    and al: "\<forall>g \<in> set (store s). seg_end g \<le> unat (recover s) \<or> recover s \<le> seq g"
    and en: "\<forall>g \<in> set (store s). seg_end g \<le> unat (snd_nxt s)"
    and re: "\<forall>g \<in> set (store s). retries g \<noteq> 0 \<longrightarrow> seg_end g \<le> unat (recover s)"
    by (simp_all add: karn_inv_def)
  from True rec(1) have "\<not> recover s \<le> seq ?g"
    by (simp add: word_less_nat_alt word_le_nat_alt)
  with al gin have gr: "seg_end ?g \<le> unat (recover s)" by blast
  from en gin have gn: "seg_end ?g \<le> unat (snd_nxt s)" by blast
  have k1: "karn_inv ?s1"
  proof -
    have ok1: "sock_ok ?s1" using ok by (simp add: sock_ok_def)
    have "\<forall>g \<in> set (store ?s1). seg_end g \<le> unat (snd_nxt s)"
      using sub en gn ge by auto
    moreover have "\<forall>g \<in> set (store ?s1). seg_end g \<le> unat (recover s) \<or> recover s \<le> seq g"
      using sub al gr ge by auto
    moreover have "\<forall>g \<in> set (store ?s1). retries g \<noteq> 0 \<longrightarrow> seg_end g \<le> unat (recover s)"
      using sub re gr ge by auto
    ultimately show ?thesis
      using ok1 assms(1,2) by (simp add: karn_inv_def)
  qed
  have "karn_inv ?s' = karn_inv ?s1"
    using True by (intro karn_inv_cong) (simp_all add: retransmit_body_eq Let_def)
  moreover have "in_recovery ?s'" using True assms(2) by (simp add: retransmit_body_eq Let_def)
  ultimately show ?thesis using k1 by simp
qed

lemma retransmit_timer_karn:
  assumes "karn_inv s" "tcp_retransmit_timer s = Inr s'"
  shows "karn_inv s'"
proof -
  let ?s1 = "if \<not> in_recovery s then tcp_enter_recovery s else s"
  have rec1: "in_recovery ?s1" by (simp add: tcp_enter_recovery_def)
  have k1: "karn_inv ?s1"
  proof (cases "in_recovery s")
    case True
    with assms(1) show ?thesis by simp
  next
    case False
    with assms(1) have "\<forall>g \<in> set (store s). retries g = 0" by (auto simp: karn_inv_def)
    with assms(1) False show ?thesis
      by (simp add: karn_inv_def tcp_enter_recovery_def sock_ok_def store_def)
  qed
  show ?thesis
  proof (cases "retransmit_loop 0 ?s1")
    case (Inl f)
    with assms(2) show ?thesis by (simp add: tcp_retransmit_timer_def Let_def)
  next
    case r: (Inr s2)
    from retransmit_loop_rule [where P = "\<lambda>j s. karn_inv s \<and> in_recovery s", OF r]
      k1 rec1 retransmit_body_karn
    have k2: "karn_inv s2" by blast
    from r assms(2) have s': "s' = s2\<lparr>timeouts := timeouts s2 + 1\<rparr>"
      by (simp add: tcp_retransmit_timer_def Let_def)
    have "karn_inv s' = karn_inv s2" unfolding s' by (rule karn_inv_cong) simp_all
    with k2 show ?thesis by simp
  qed
qed

lemma cwnd_event_karn_case:
  assumes "karn_inv s"
  shows "case tcp_cwnd_event s e of Inl f \<Rightarrow> True | Inr s' \<Rightarrow> karn_inv s' \<and>
           (e = 2 \<longrightarrow> in_recovery s' = in_recovery s \<and> recover s' = recover s \<and>
              srtt s' = srtt s \<and> rttvar s' = rttvar s \<and> rto s' = rto s \<and>
              segments s' = segments s \<and> num_segments s' = num_segments s \<and>
              snd_nxt s' = snd_nxt s \<and> snd_una s' = snd_una s)"
proof -
  have z: "\<forall>g \<in> set (store s). retries g = 0" if "\<not> in_recovery s"
    using that assms by (auto simp: karn_inv_def)
  show ?thesis
    using assms z
    by (simp add: tcp_cwnd_event_def Let_def karn_inv_def sock_ok_def store_def
        tcp_enter_recovery_def)
qed

lemma cwnd_event_karn:
  assumes "karn_inv s" "tcp_cwnd_event s e = Inr s'"
  shows "karn_inv s'"
  using cwnd_event_karn_case [OF assms(1), of e] assms(2) by simp

lemma update_rtt_frame_case:
  "case tcp_update_rtt s m of Inl f \<Rightarrow> True | Inr s' \<Rightarrow>
     segments s' = segments s \<and> num_segments s' = num_segments s \<and>
     snd_una s' = snd_una s \<and> snd_nxt s' = snd_nxt s \<and>
     in_recovery s' = in_recovery s \<and> recover s' = recover s"
  by (simp add: tcp_update_rtt_def Let_def)

lemma update_rtt_karn:
  assumes "karn_inv s" "tcp_update_rtt s m = Inr s'"
  shows "karn_inv s' \<and> in_recovery s' = in_recovery s"
proof -
  from update_rtt_frame_case [of s m] assms(2)
  have fr: "segments s' = segments s" "num_segments s' = num_segments s"
    "snd_una s' = snd_una s" "snd_nxt s' = snd_nxt s"
    "in_recovery s' = in_recovery s" "recover s' = recover s"
    by simp_all
  from karn_inv_cong [OF fr] assms(1) fr(5) show ?thesis by simp
qed

lemma seg_end_no_wrap:
  assumes "seg_end g < 2 ^ 32"
  shows "unat (seq g + ucast (len g)) = seg_end g"
proof -
  have "unat (len g) < 2 ^ 16" using unsigned_less [of "len g"] by simp
  then have "unat (len g) < 2 ^ 32" by simp
  then have "unat (ucast (len g) :: 32 word) = unat (len g)"
    by (simp add: unsigned_ucast_eq take_bit_nat_eq_self)
  with assms show ?thesis by (simp add: seg_end_def unat_word_ariths)
qed

lemma clean_rtx_queue_karn:
  assumes "karn_inv s" "tcp_clean_rtx_queue s a = Inr s'"
  shows "karn_inv s' \<and> in_recovery s' = in_recovery s \<and> recover s' = recover s \<and>
         snd_nxt s' = snd_nxt s \<and> snd_una s' = snd_una s \<and>
         srtt s' = srtt s \<and> rttvar s' = rttvar s \<and> rto s' = rto s \<and>
         (\<forall>g \<in> set (store s'). unat a < seg_end g)"
proof -
  from assms(1) have ok: "sock_ok s" by (simp add: karn_inv_def)
  from clean_loop_spec [OF ok, of 0 a] assms(2)
  have ok': "sock_ok s'"
    and st: "store s' = filter (\<lambda>g. \<not> seq g + ucast (len g) \<le> a) (store s)"
    and fr: "s'\<lparr>segments := segments s, num_segments := num_segments s\<rparr> = s"
    by (auto simp: tcp_clean_rtx_queue_def)
  from arg_cong [OF fr, of in_recovery] arg_cong [OF fr, of recover]
    arg_cong [OF fr, of snd_nxt] arg_cong [OF fr, of snd_una]
  have f1: "in_recovery s' = in_recovery s" "recover s' = recover s"
    "snd_nxt s' = snd_nxt s" "snd_una s' = snd_una s"
    by simp_all
  from arg_cong [OF fr, of srtt] arg_cong [OF fr, of rttvar] arg_cong [OF fr, of rto]
  have f2: "srtt s' = srtt s" "rttvar s' = rttvar s" "rto s' = rto s"
    by simp_all
  from st have sub: "set (store s') \<subseteq> set (store s)" by auto
  have k: "karn_inv s'"
    using assms(1) ok' sub unfolding karn_inv_def f1 by blast
  have "unat a < seg_end g" if "g \<in> set (store s')" for g
  proof -
    from that st have nc: "\<not> seq g + ucast (len g) \<le> a" and "g \<in> set (store s)" by auto
    with assms(1) have "seg_end g \<le> unat (snd_nxt s)" by (simp add: karn_inv_def)
    moreover have "unat (snd_nxt s) < 2 ^ 32" using unsigned_less [of "snd_nxt s"] by simp
    ultimately have "unat (seq g + ucast (len g)) = seg_end g"
      by (intro seg_end_no_wrap) simp
    with nc show ?thesis by (simp add: word_le_nat_alt)
  qed
  with k f1 f2 show ?thesis by blast
qed

lemma ack_received_karn:
  assumes "karn_inv s" "a \<le> snd_nxt s" "tcp_ack_received s a w = Inr s'"
  shows "karn_inv s'"
proof (cases "snd_una s < a")
  case False
  with assms show ?thesis by (simp add: tcp_ack_received_def)
next
  case True
  let ?s1 = "s\<lparr>rcv_wnd := ucast w\<rparr>"
  have "karn_inv ?s1 = karn_inv s" by (rule karn_inv_cong) simp_all
  with assms(1) have k1: "karn_inv ?s1" by simp
  show ?thesis
  proof (cases "if \<not> in_recovery ?s1 then tcp_update_rtt ?s1 100 else Inr ?s1")
    case (Inl f)
    with True assms(3) show ?thesis by (simp add: tcp_ack_received_def Let_def)
  next
    case e2: (Inr s2)
    have k2: "karn_inv s2 \<and> in_recovery s2 = in_recovery s"
      and f2: "recover s2 = recover s" "snd_nxt s2 = snd_nxt s"
    proof -
      show "karn_inv s2 \<and> in_recovery s2 = in_recovery s"
      proof (cases "in_recovery s")
        case True
        with e2 have "s2 = ?s1" by simp
        with k1 True show ?thesis by simp
      next
        case False
        with e2 have "tcp_update_rtt ?s1 100 = Inr s2" by simp
        from update_rtt_karn [OF k1 this] show ?thesis by simp
      qed
      show "recover s2 = recover s" "snd_nxt s2 = snd_nxt s"
      proof -
        have "recover s2 = recover s \<and> snd_nxt s2 = snd_nxt s"
        proof (cases "in_recovery s")
          case True
          with e2 have "s2 = ?s1" by simp
          then show ?thesis by simp
        next
          case False
          with e2 have "tcp_update_rtt ?s1 100 = Inr s2" by simp
          with update_rtt_frame_case [of ?s1 100] show ?thesis by simp
        qed
        then show "recover s2 = recover s" "snd_nxt s2 = snd_nxt s" by simp_all
      qed
    qed
    show ?thesis
    proof (cases "tcp_clean_rtx_queue s2 a")
      case (Inl f)
      with True e2 assms(3) show ?thesis by (simp add: tcp_ack_received_def Let_def)
    next
      case e3: (Inr s3)
      from k2 have "karn_inv s2" by simp
      note c3 = clean_rtx_queue_karn [OF this e3]
      show ?thesis
      proof (cases "tcp_cwnd_event s3 2")
        case (Inl f)
        with True e2 e3 assms(3) show ?thesis by (simp add: tcp_ack_received_def Let_def)
      next
        case e4: (Inr s4)
        from c3 have k3: "karn_inv s3" by simp
        from cwnd_event_karn_case [OF k3, of 2] e4
        have k4: "karn_inv s4" and f4: "in_recovery s4 = in_recovery s3" "recover s4 = recover s3"
          "segments s4 = segments s3" "num_segments s4 = num_segments s3"
          "snd_nxt s4 = snd_nxt s3"
          by simp_all
        from f4(3,4) have st4: "store s4 = store s3" by (simp add: store_def)
        from c3 st4 have above: "\<forall>g \<in> set (store s4). unat a < seg_end g" by simp
        from f4 c3 f2 k2 have r4: "recover s4 = recover s" "snd_nxt s4 = snd_nxt s"
          "in_recovery s4 = in_recovery s"
          by simp_all
        let ?s5 = "if in_recovery s4 \<and> recover s4 \<le> a then tcp_leave_recovery s4 else s4"
        from True e2 e3 e4 assms(3) have s': "s' = ?s5\<lparr>snd_una := a\<rparr>"
          by (simp add: tcp_ack_received_def Let_def)
        have st': "store s' = store s4" "snd_nxt s' = snd_nxt s4" "recover s' = recover s4"
          "in_recovery s' = (in_recovery s4 \<and> \<not> recover s4 \<le> a)" "snd_una s' = a"
          "sock_ok s' = sock_ok s4"
          unfolding s' by (auto simp: store_def tcp_leave_recovery_def sock_ok_def)
        from k4 have ok4: "sock_ok s4" "\<forall>g \<in> set (store s4). seg_end g \<le> unat (snd_nxt s4)"
          and d4: "in_recovery s4 \<longrightarrow> recover s4 \<le> snd_nxt s4 \<and>
                 (\<forall>g \<in> set (store s4). seg_end g \<le> unat (recover s4) \<or> recover s4 \<le> seq g)"
          and e4': "\<forall>g \<in> set (store s4). retries g \<noteq> 0 \<longrightarrow>
                 in_recovery s4 \<and> seg_end g \<le> unat (recover s4)"
          by (simp_all add: karn_inv_def)
        have e': "in_recovery s4 \<and> \<not> recover s4 \<le> a \<and> seg_end g \<le> unat (recover s4)"
          if "g \<in> set (store s4)" "retries g \<noteq> 0" for g
        proof -
          from e4' that have i: "in_recovery s4" and le: "seg_end g \<le> unat (recover s4)" by auto
          from above that(1) have "unat a < seg_end g" by blast
          with le have "\<not> recover s4 \<le> a" by (simp add: word_le_nat_alt)
          with i le show ?thesis by simp
        qed
        show ?thesis
          unfolding karn_inv_def st'
          using ok4 d4 e' assms(2) r4(2) by (auto simp: not_le)
      qed
    qed
  qed
qed

lemma step_karn:
  assumes "karn_inv s" "admissible s e" "step s e = Inr s'"
  shows "karn_inv s'"
  using assms
  by (cases e) (auto dest: ack_received_karn retransmit_timer_karn write_xmit_karn cwnd_event_karn)

lemma run_karn:
  assumes "karn_inv s" "admissible_run s es" "run s es = Inr s'"
  shows "karn_inv s'"
  using assms
proof (induction es arbitrary: s)
  case Nil
  then show ?case by simp
next
  case (Cons e es)
  from Cons.prems(3) obtain s1 where s1: "step s e = Inr s1" "run s1 es = Inr s'"
    by (auto split: sum.splits)
  with Cons.prems(2) have "admissible s e" "admissible_run s1 es" by simp_all
  with Cons.IH step_karn [OF Cons.prems(1) _ s1(1)] s1(2) show ?case by blast
qed

lemma ack_in_recovery_takes_no_sample:
  assumes "basic_inv s" "in_recovery s"
  shows "\<exists>s'. tcp_ack_received s a w = Inr s' \<and>
           srtt s' = srtt s \<and> rttvar s' = rttvar s \<and> rto s' = rto s"
proof (cases "snd_una s < a")
  case False
  then show ?thesis by (simp add: tcp_ack_received_def)
next
  case True
  let ?s1 = "s\<lparr>rcv_wnd := ucast w\<rparr>"
  have b1: "basic_inv ?s1" using assms(1) by (simp add: basic_inv_def sock_ok_def)
  then have ok1: "sock_ok ?s1" by (simp add: basic_inv_def)
  from clean_loop_spec [OF ok1, of 0 a]
  obtain s3 where e3: "tcp_clean_rtx_queue ?s1 a = Inr s3"
    and fr: "s3\<lparr>segments := segments ?s1, num_segments := num_segments ?s1\<rparr> = ?s1"
    by (auto simp: tcp_clean_rtx_queue_def)
  from arg_cong [OF fr, of srtt] arg_cong [OF fr, of rttvar] arg_cong [OF fr, of rto]
    arg_cong [OF fr, of cwnd]
  have f3: "srtt s3 = srtt s" "rttvar s3 = rttvar s" "rto s3 = rto s" "cwnd s3 = cwnd s"
    by simp_all
  from assms(1) f3(4) have nz: "cwnd s3 \<noteq> 0" by (auto simp: basic_inv_def TCP_MSS_def)
  then have "\<exists>s4. tcp_cwnd_event s3 2 = Inr s4 \<and>
      srtt s4 = srtt s3 \<and> rttvar s4 = rttvar s3 \<and> rto s4 = rto s3"
    by (simp add: tcp_cwnd_event_def)
  then obtain s4 where e4: "tcp_cwnd_event s3 2 = Inr s4"
    and f4: "srtt s4 = srtt s3" "rttvar s4 = rttvar s3" "rto s4 = rto s3"
    by blast
  let ?s5 = "if in_recovery s4 \<and> recover s4 \<le> a then tcp_leave_recovery s4 else s4"
  from True assms(2) e3 e4 have "tcp_ack_received s a w = Inr (?s5\<lparr>snd_una := a\<rparr>)"
    by (simp add: tcp_ack_received_def Let_def)
  moreover have "srtt (?s5\<lparr>snd_una := a\<rparr>) = srtt s4" "rttvar (?s5\<lparr>snd_una := a\<rparr>) = rttvar s4"
    "rto (?s5\<lparr>snd_una := a\<rparr>) = rto s4"
    by (simp_all add: tcp_leave_recovery_def)
  ultimately show ?thesis using f3 f4 by simp
qed

lemma sorted_map_le_last:
  assumes "sorted (map f xs)" "x \<in> set xs"
  shows "f x \<le> f (last xs)"
  using assms by (induction xs) auto

section \<open>The timeout handler and the unacknowledged segments (C1)\<close>

text \<open>
  C1 says that \<open>tcp_retransmit_timer\<close> retransmits every tracked segment whose
  \<open>retries\<close> is below \<open>MAX_RETRIES\<close>, incrementing \<open>retries\<close> and setting
  \<open>retrans\<close>. The loop, under the comment "Retransmit unacked segments", hands a
  segment to \<open>tcp_retransmit_skb\<close> only when \<open>seg->seq < sk->snd_una\<close>. On the
  socket that has just sent its first ten segments every tracked segment has
  \<open>retries = 0 < MAX_RETRIES\<close> and \<open>seq \<ge> snd_una\<close>, and the timeout retransmits
  none of them: the store, every \<open>retries\<close>, every \<open>retrans\<close>, the counter
  \<open>retransmits\<close> and \<open>rto\<close> are as before.
\<close>

theorem timer_skips_unacked_segments:
  "(case run initial_sock [WriteXmit] of
      Inl f \<Rightarrow> False
    | Inr s \<Rightarrow>
        num_segments s = 10 \<and>
        list_all (\<lambda>g. unat (retries g) < MAX_RETRIES \<and> snd_una s \<le> seq g) (store s) \<and>
        (case tcp_retransmit_timer s of
           Inl f \<Rightarrow> False
         | Inr s' \<Rightarrow>
             store s' = store s \<and> retransmits s' = 0 \<and> rto s' = rto s \<and>
             map retries (store s') = replicate 10 0 \<and>
             map retrans (store s') = replicate 10 False))"
  by (simp add: sock_eval)

section \<open>ACK numbers that are ignored (C2)\<close>

text \<open>
  C2 says that an ACK number outside \<open>[snd_una, snd_nxt]\<close> leaves the whole socket
  unchanged. \<open>tcp_ack_received\<close> compares the ACK number with \<open>snd_una\<close> only.
  On the initial socket, where \<open>snd_una = snd_nxt = 1000\<close>, the ACK number 2000 is
  outside the interval and is processed: \<open>snd_una\<close>, \<open>cwnd\<close> and \<open>rttvar\<close> change.
\<close>

theorem ack_beyond_snd_nxt_counterexample:
  "\<not> (snd_una initial_sock \<le> 2000 \<and> 2000 \<le> snd_nxt initial_sock) \<and>
   tcp_ack_received initial_sock 2000 65535
     = Inr (initial_sock\<lparr>snd_una := 2000, cwnd := 16060, rttvar := 1073741861\<rparr>)"
  by (simp add: sock_eval)

text \<open>
  C2 as amended: \<open>tcp_ack_received\<close> returns the socket it was given, every field
  and the whole segment array unchanged, exactly when the ACK number is not above
  \<open>snd_una\<close>.
\<close>

theorem ack_ignored_iff_not_above_snd_una:
  "tcp_ack_received sk a w = Inr sk \<longleftrightarrow> a \<le> snd_una sk"
proof (cases "snd_una sk < a")
  case False
  then show ?thesis by (simp add: tcp_ack_received_def)
next
  case True
  have "snd_una sk' = a" if "tcp_ack_received sk a w = Inr sk'" for sk'
    using that True
    by (auto simp: tcp_ack_received_def Let_def split: sum.splits if_splits)
  with True show ?thesis by auto
qed

theorem ack_ignored_iff_not_above_snd_una_witness:
  "tcp_ack_received initial_sock 1000 65535 = Inr initial_sock \<and>
   tcp_ack_received initial_sock 999 65535 = Inr initial_sock \<and>
   tcp_ack_received initial_sock 1001 65535 \<noteq> Inr initial_sock"
  using ack_ignored_iff_not_above_snd_una [of initial_sock 1000 65535]
    ack_ignored_iff_not_above_snd_una [of initial_sock 999 65535]
    ack_ignored_iff_not_above_snd_una [of initial_sock 1001 65535]
  by (simp add: initial_sock_def tcp_sock_create_def)

section \<open>The invariants of the reachable states (C3)\<close>

text \<open>
  C3 says that in every state reachable from the initial socket by \<open>on_ack\<close>,
  \<open>on_timeout\<close> and \<open>write_xmit\<close> both \<open>snd_una \<le> snd_nxt\<close> and
  \<open>RTO_MIN \<le> rto \<le> RTO_MAX\<close> hold. The first fails after one call:
  \<open>tcp_ack_received\<close> accepts the ACK number 2000 on the initial socket and sets
  \<open>snd_una = 2000\<close> while \<open>snd_nxt\<close> is still 1000.
\<close>

theorem snd_una_overtakes_snd_nxt_counterexample:
  "map_sum id (\<lambda>s. (snd_una s, snd_nxt s)) (run initial_sock [OnAck 2000 65535]) = Inr (2000, 1000)
   \<and> \<not> (2000 :: 32 word) \<le> 1000"
  by (simp add: sock_eval)

text \<open>
  C3 as amended: in every state reached from the initial socket by a run of the
  engine's calls, \<open>RTO_MIN \<le> rto \<le> RTO_MAX\<close>; and \<open>snd_una \<le> snd_nxt\<close> holds in
  the states reached by the admissible runs, those in which no ACK number is above
  \<open>snd_nxt\<close> and the sequence numbers do not wrap.
\<close>

theorem rto_bounds_in_every_run:
  assumes "run initial_sock es = Inr s"
  shows "RTO_MIN \<le> unat (rto s) \<and> unat (rto s) \<le> RTO_MAX \<and>
         (admissible_run initial_sock es \<longrightarrow> snd_una s \<le> snd_nxt s)"
proof -
  from run_inv [OF basic_inv_initial assms]
  have "RTO_MIN \<le> unat (rto s) \<and> unat (rto s) \<le> RTO_MAX" by (simp add: basic_inv_def)
  moreover have "snd_una s \<le> snd_nxt s" if "admissible_run initial_sock es"
    using run_karn [OF karn_inv_initial that assms] by (simp add: karn_inv_def)
  ultimately show ?thesis by blast
qed

theorem rto_bounds_in_every_run_witness:
  "\<not> isl (run initial_sock [WriteXmit, OnAck 6000 65535, OnTimeout, OnAck 15600 65535, WriteXmit]) \<and>
   admissible_run initial_sock [WriteXmit, OnAck 6000 65535, OnTimeout, OnAck 15600 65535, WriteXmit] \<and>
   RTO_MIN \<le> unat (rto (projr (run initial_sock
      [WriteXmit, OnAck 6000 65535, OnTimeout, OnAck 15600 65535, WriteXmit]))) \<and>
   unat (rto (projr (run initial_sock
      [WriteXmit, OnAck 6000 65535, OnTimeout, OnAck 15600 65535, WriteXmit]))) \<le> RTO_MAX \<and>
   snd_una (projr (run initial_sock
      [WriteXmit, OnAck 6000 65535, OnTimeout, OnAck 15600 65535, WriteXmit]))
     \<le> snd_nxt (projr (run initial_sock
      [WriteXmit, OnAck 6000 65535, OnTimeout, OnAck 15600 65535, WriteXmit]))"
proof -
  let ?es = "[WriteXmit, OnAck 6000 65535, OnTimeout, OnAck 15600 65535, WriteXmit]"
  have h: "\<not> isl (run initial_sock ?es)" by (simp add: sock_eval)
  then have r: "run initial_sock ?es = Inr (projr (run initial_sock ?es))" by simp
  have adm: "admissible_run initial_sock ?es" by (simp add: sock_eval)
  from rto_bounds_in_every_run [OF r] h adm show ?thesis by blast
qed

section \<open>The backoff of the retransmission timeout (C4)\<close>

text \<open>
  C4 says that each call of \<open>tcp_retransmit_timer\<close> on a socket with outstanding
  segments sets \<open>rto\<close> to \<open>min (rto * 2) RTO_MAX\<close>, and that eight timeouts take
  \<open>rto\<close> from 1000 to 120000. The doubling is in \<open>tcp_retransmit_skb\<close>, so it
  happens once for every segment the timeout retransmits and stops when the segment
  is at the retry limit. With ten segments outstanding and the first of them partly
  acknowledged (\<open>snd_una = 1001\<close>), that segment is retransmitted by the first five
  timeouts and \<open>rto\<close> is 32000 after eight. With three segments below \<open>snd_una\<close> a
  single timeout takes \<open>rto\<close> from 1000 to 8000.
\<close>

theorem timeout_backoff_counterexample:
  "map_sum id (\<lambda>s. (num_segments s, rto s)) (run initial_sock [WriteXmit, OnAck 1001 65535])
     = Inr (10, 1000) \<and>
   map_sum id rto (run initial_sock [WriteXmit, OnAck 1001 65535, OnTimeout, OnTimeout,
       OnTimeout, OnTimeout, OnTimeout, OnTimeout, OnTimeout, OnTimeout]) = Inr 32000 \<and>
   map_sum id (\<lambda>s. (num_segments s, rto s)) (run initial_sock [OnAck 5000 65535, WriteXmit])
     = Inr (11, 1000) \<and>
   map_sum id rto (run initial_sock [OnAck 5000 65535, WriteXmit, OnTimeout]) = Inr 8000"
  by (simp add: sock_eval)

text \<open>
  C4 as amended: retransmitting one segment that is below the retry limit sets
  \<open>rto\<close> to \<open>min (rto * 2) RTO_MAX\<close>; \<open>tcp_retransmit_timer\<close> backs off once
  per segment it retransmits, so after a call that retransmits \<open>k\<close> segments (the
  increase of the counter \<open>retransmits\<close>) \<open>rto\<close> is \<open>min (rto * 2 ^ k) RTO_MAX\<close>,
  and it is unchanged when the call retransmits none. This is for a well-formed
  socket whose \<open>rto\<close> is at most \<open>RTO_MAX\<close>.
\<close>

theorem timeout_backoff_per_retransmission:
  assumes "sock_ok sk" and "unat (rto sk) \<le> RTO_MAX"
  shows "(unat (retries seg) < MAX_RETRIES \<longrightarrow>
            unat (rto (fst (tcp_retransmit_skb sk seg))) = min (unat (rto sk) * 2) RTO_MAX) \<and>
         (\<exists>sk'. tcp_retransmit_timer sk = Inr sk' \<and>
            unat (rto sk') =
              min (unat (rto sk) * 2 ^ unat (retransmits sk' - retransmits sk)) RTO_MAX \<and>
            unat (retransmits sk' - retransmits sk) \<le> MAX_SEGMENTS)"
proof
  show "unat (retries seg) < MAX_RETRIES \<longrightarrow>
          unat (rto (fst (tcp_retransmit_skb sk seg))) = min (unat (rto sk) * 2) RTO_MAX"
    using backoff_unat [OF assms(2)]
    by (auto simp: tcp_retransmit_skb_def tcp_transmit_skb_def Let_def split: if_splits)
next
  let ?sk1 = "if \<not> in_recovery sk then tcp_enter_recovery sk else sk"
  have ok1: "sock_ok ?sk1" using assms(1) by (simp add: sock_ok_def tcp_enter_recovery_def)
  have rto1: "unat (rto ?sk1) \<le> RTO_MAX" using assms(2) by (simp add: tcp_enter_recovery_def)
  from retransmit_loop_total [OF ok1, of 0]
  obtain sk2 where r: "retransmit_loop 0 ?sk1 = Inr sk2" by blast
  from timer_rto [OF r rto1]
  have "unat (rto sk2) = min (unat (rto ?sk1) * 2 ^ unat (retransmits sk2 - retransmits ?sk1)) RTO_MAX"
    and "unat (retransmits sk2 - retransmits ?sk1) \<le> MAX_SEGMENTS"
    by simp_all
  then have "unat (rto sk2) = min (unat (rto sk) * 2 ^ unat (retransmits sk2 - retransmits sk)) RTO_MAX"
    and "unat (retransmits sk2 - retransmits sk) \<le> MAX_SEGMENTS"
    by (simp_all add: tcp_enter_recovery_def split: if_splits)
  with r show "\<exists>sk'. tcp_retransmit_timer sk = Inr sk' \<and>
            unat (rto sk') =
              min (unat (rto sk) * 2 ^ unat (retransmits sk' - retransmits sk)) RTO_MAX \<and>
            unat (retransmits sk' - retransmits sk) \<le> MAX_SEGMENTS"
    by (simp add: tcp_retransmit_timer_def Let_def)
qed

theorem timeout_backoff_per_retransmission_witness:
  "sock_ok (projr (run initial_sock [OnAck 5000 65535, WriteXmit])) \<and>
   unat (rto (projr (run initial_sock [OnAck 5000 65535, WriteXmit]))) \<le> RTO_MAX \<and>
   unat (retries zero_segment) < MAX_RETRIES \<and>
   unat (rto (fst (tcp_retransmit_skb (projr (run initial_sock [OnAck 5000 65535, WriteXmit]))
                     zero_segment)))
     = min (unat (rto (projr (run initial_sock [OnAck 5000 65535, WriteXmit]))) * 2) RTO_MAX \<and>
   (\<exists>sk'. tcp_retransmit_timer (projr (run initial_sock [OnAck 5000 65535, WriteXmit])) = Inr sk' \<and>
      unat (rto sk') =
        min (unat (rto (projr (run initial_sock [OnAck 5000 65535, WriteXmit]))) *
             2 ^ unat (retransmits sk' -
                       retransmits (projr (run initial_sock [OnAck 5000 65535, WriteXmit]))))
          RTO_MAX)"
proof -
  let ?s = "projr (run initial_sock [OnAck 5000 65535, WriteXmit])"
  have ok: "sock_ok ?s" by (simp add: sock_eval sock_ok_def)
  have le: "unat (rto ?s) \<le> RTO_MAX" by (simp add: sock_eval)
  have lt: "unat (retries zero_segment) < MAX_RETRIES"
    by (simp add: zero_segment_def MAX_RETRIES_def)
  from timeout_backoff_per_retransmission [OF ok le, of zero_segment] ok le lt
  show ?thesis by blast
qed

section \<open>The capacity of the segment array (C5)\<close>

text \<open>
  C5 says that the store never holds more than \<open>MAX_SEGMENTS\<close> segments and that
  every write into the array is at an index below \<open>MAX_SEGMENTS\<close>, also across
  repeated \<open>tcp_write_xmit\<close> calls without ACKs. The loop guard \<open>i < MAX_SEGMENTS\<close>
  bounds the segments of one call, not the slot index \<open>num_segments\<close>. From the
  initial socket each call creates ten segments; three calls fill slots 0 to 29, and
  the fourth call writes slots 30 and 31 and then slot 32, outside the array.
\<close>

theorem write_xmit_overruns_segment_array:
  "map_sum id num_segments (run initial_sock [WriteXmit, WriteXmit, WriteXmit]) = Inr 30 \<and>
   run initial_sock [WriteXmit, WriteXmit, WriteXmit, WriteXmit]
     = Inl (ArrayIndexOutOfBounds 32)"
  by (simp add: sock_eval)

section \<open>Karn's rule (C6)\<close>

text \<open>
  C6 says that in every execution no RTT sample is taken from an ACK that covers a
  segment whose \<open>retries\<close> is above zero. \<open>tcp_ack_received\<close> samples whenever the
  socket is not in recovery and never looks at the segments. In the run below the
  first ACK number, 5000, is above \<open>snd_nxt = 1000\<close>; the segments sent afterwards
  start below \<open>snd_una\<close>, the second timeout retransmits three of them while
  \<open>recover\<close> is still 1000, and ACK 5001 ends the recovery with the retransmitted
  segment at 3920 still tracked. ACK 6000 then covers that segment and takes a
  sample: \<open>rttvar\<close> and \<open>rto\<close> change.
\<close>

theorem karn_rule_counterexample:
  "map_sum id (\<lambda>s. (in_recovery s, retries (hd (store s)), seq (hd (store s)), len (hd (store s)),
                      srtt s, rttvar s, rto s))
     (run initial_sock [OnAck 5000 65535, OnTimeout, WriteXmit, OnTimeout, OnAck 5001 65535])
     = Inr (False, 1, 3920, 1460, 100, 1073741861, 8000) \<and>
   (3920 + 1460 :: 32 word) \<le> 6000 \<and>
   map_sum id (\<lambda>s. (map seq (store s), srtt s, rttvar s, rto s))
     (run initial_sock [OnAck 5000 65535, OnTimeout, WriteXmit, OnTimeout, OnAck 5001 65535,
                        OnAck 6000 65535])
     = Inr ([5380, 6840, 8300, 9760, 11220, 12680, 14140, 15600], 100, 1879048219, 120000)"
  by (simp add: sock_eval)

text \<open>
  C6 as amended: in every admissible execution, one in which no ACK number is above
  \<open>snd_nxt\<close> and the sequence numbers do not wrap, a socket that tracks a
  retransmitted segment covered by an ACK number is in recovery, and processing that
  ACK returns with \<open>srtt\<close>, \<open>rttvar\<close> and \<open>rto\<close> unchanged: no sample is taken.
\<close>

theorem karn_rule_in_admissible_runs:
  assumes "admissible_run initial_sock es" and "run initial_sock es = Inr s"
    and "\<exists>g \<in> set (store s). seq g + ucast (len g) \<le> a \<and> retries g \<noteq> 0"
  shows "in_recovery s \<and>
         (\<exists>s'. tcp_ack_received s a w = Inr s' \<and>
                srtt s' = srtt s \<and> rttvar s' = rttvar s \<and> rto s' = rto s)"
proof -
  from run_karn [OF karn_inv_initial assms(1,2)] have "karn_inv s" .
  with assms(3) have rec: "in_recovery s" by (auto simp: karn_inv_def)
  from run_inv [OF basic_inv_initial assms(2)] have "basic_inv s" .
  from ack_in_recovery_takes_no_sample [OF this rec, of a w] rec show ?thesis by simp
qed

theorem karn_rule_in_admissible_runs_witness:
  "admissible_run initial_sock [WriteXmit, OnAck 1001 65535, OnTimeout] \<and>
   \<not> isl (run initial_sock [WriteXmit, OnAck 1001 65535, OnTimeout]) \<and>
   list_ex (\<lambda>g. seq g + ucast (len g) \<le> 2460 \<and> retries g \<noteq> 0)
     (store (projr (run initial_sock [WriteXmit, OnAck 1001 65535, OnTimeout]))) \<and>
   in_recovery (projr (run initial_sock [WriteXmit, OnAck 1001 65535, OnTimeout])) \<and>
   (\<exists>s'. tcp_ack_received (projr (run initial_sock [WriteXmit, OnAck 1001 65535, OnTimeout]))
            2460 65535 = Inr s' \<and>
      srtt s' = srtt (projr (run initial_sock [WriteXmit, OnAck 1001 65535, OnTimeout])) \<and>
      rttvar s' = rttvar (projr (run initial_sock [WriteXmit, OnAck 1001 65535, OnTimeout])) \<and>
      rto s' = rto (projr (run initial_sock [WriteXmit, OnAck 1001 65535, OnTimeout])))"
proof -
  let ?es = "[WriteXmit, OnAck 1001 65535, OnTimeout]"
  let ?s = "projr (run initial_sock ?es)"
  have adm: "admissible_run initial_sock ?es" by (simp add: sock_eval)
  have h: "\<not> isl (run initial_sock ?es)" by (simp add: sock_eval)
  then have r: "run initial_sock ?es = Inr ?s" by simp
  have cov: "list_ex (\<lambda>g. seq g + ucast (len g) \<le> 2460 \<and> retries g \<noteq> 0) (store ?s)"
    by (simp add: sock_eval)
  then have "\<exists>g \<in> set (store ?s). seq g + ucast (len g) \<le> 2460 \<and> retries g \<noteq> 0"
    by (simp add: list_ex_iff)
  from karn_rule_in_admissible_runs [OF adm r this, of 65535] adm h cov
  show ?thesis by blast
qed

section \<open>The RTT sample (C7)\<close>

text \<open>
  C7 says that one sample \<open>m\<close> moves \<open>rttvar\<close> to
  \<open>rttvar + (|m - srtt| - rttvar) / 4\<close> with an arithmetic shift by 2, rounding
  towards minus infinity. In \<open>(abs(err) - sk->rttvar) >> 2\<close> the difference is
  unsigned, so the shift is logical. On the initial socket (\<open>srtt = 100\<close>,
  \<open>rttvar = 50\<close>) the sample 100, the one \<open>tcp_ack_received\<close> always passes, gives
  \<open>rttvar = 1073741861\<close>, where the formula of the claim (and the comment
  "rttvar = 3/4 rttvar + 1/4 |err|") gives \<open>50 + (0 - 50) div 4 = 37\<close>.
\<close>

theorem update_rtt_rttvar_logical_shift:
  "tcp_update_rtt initial_sock 100 = Inr (initial_sock\<lparr>rttvar := 1073741861\<rparr>) \<and>
   uint (rttvar initial_sock) + (\<bar>100 - uint (srtt initial_sock)\<bar> - uint (rttvar initial_sock)) div 4
     = 37"
  by (simp add: sock_eval)

section \<open>The floors of cwnd and ssthresh (C8)\<close>

text \<open>
  C8 says that the arithmetic on \<open>cwnd\<close> and \<open>ssthresh\<close> saturates at one
  \<open>MSS\<close>, so that after every congestion event \<open>cwnd \<ge> MSS\<close> and
  \<open>ssthresh \<ge> MSS\<close>. \<open>tcp_cwnd_event\<close> sets \<open>ssthresh = cwnd / 2\<close> with no
  floor: two timeout events in a row leave \<open>cwnd = 1460\<close> and \<open>ssthresh = 730\<close>.
\<close>

theorem ssthresh_below_mss_counterexample:
  "map_sum id (\<lambda>s. (cwnd s, ssthresh s)) (run initial_sock [CwndEvent 1, CwndEvent 1]) = Inr (1460, 730)
   \<and> unat (730 :: 32 word) < TCP_MSS"
  by (simp add: sock_eval)

text \<open>
  C8 as amended: in every state reached from the initial socket by a run of the
  engine's calls, congestion events included, \<open>cwnd \<ge> MSS\<close> and
  \<open>ssthresh \<ge> MSS / 2\<close>.
\<close>

theorem cwnd_and_ssthresh_floors_in_every_run:
  assumes "run initial_sock es = Inr s"
  shows "TCP_MSS \<le> unat (cwnd s) \<and> TCP_MSS div 2 \<le> unat (ssthresh s)"
  using run_inv [OF basic_inv_initial assms] by (simp add: basic_inv_def)

theorem cwnd_and_ssthresh_floors_in_every_run_witness:
  "\<not> isl (run initial_sock [WriteXmit, CwndEvent 0, OnAck 6000 65535, CwndEvent 1, CwndEvent 1,
                            CwndEvent 2]) \<and>
   TCP_MSS \<le> unat (cwnd (projr (run initial_sock [WriteXmit, CwndEvent 0, OnAck 6000 65535,
                                   CwndEvent 1, CwndEvent 1, CwndEvent 2]))) \<and>
   TCP_MSS div 2 \<le> unat (ssthresh (projr (run initial_sock [WriteXmit, CwndEvent 0,
                                   OnAck 6000 65535, CwndEvent 1, CwndEvent 1, CwndEvent 2])))"
proof -
  let ?r = "run initial_sock [WriteXmit, CwndEvent 0, OnAck 6000 65535, CwndEvent 1, CwndEvent 1,
                            CwndEvent 2]"
  have h: "\<not> isl ?r" by (simp add: sock_eval)
  then have "?r = Inr (projr ?r)" by simp
  from cwnd_and_ssthresh_floors_in_every_run [OF this] h show ?thesis by blast
qed

section \<open>Pruning the store (C9)\<close>

text \<open>
  C9 says that for every store and every ACK number \<open>tcp_clean_rtx_queue\<close> removes
  exactly the segments with \<open>seq + len \<le> ack\<close>, and that pruning with the
  \<open>seq + len\<close> of the last outstanding segment empties the store. The code compares
  the 32-bit sum \<open>seg->seq + seg->len\<close>, which wraps. For a segment that
  \<open>tcp_write_xmit\<close> places at 4294966216, 1080 bytes below \<open>2 ^ 32\<close>, the sum is 380:
  the ACK number 4294967000, which lies inside the segment, removes it. With two
  segments at 4294964756 and 4294966216 the \<open>seq + len\<close> of the last one is 380, and
  pruning with 380 leaves the first segment tracked.
\<close>

theorem clean_rtx_queue_wrapped_sum_counterexample:
  "(case tcp_write_xmit (initial_sock\<lparr>snd_una := 4294966216, snd_nxt := 4294966216, cwnd := 1460\<rparr>) of
      Inl f \<Rightarrow> False
    | Inr s \<Rightarrow>
        map seq (store s) = [4294966216] \<and> map len (store s) = [1460] \<and>
        unat (4294967000 :: 32 word) < unat (4294966216 :: 32 word) + unat (1460 :: 16 word) \<and>
        (case tcp_clean_rtx_queue s 4294967000 of
           Inl f \<Rightarrow> False
         | Inr s' \<Rightarrow> store s' = [] \<and> num_segments s' = 0)) \<and>
   (case tcp_write_xmit (initial_sock\<lparr>snd_una := 4294964756, snd_nxt := 4294964756, cwnd := 2920\<rparr>) of
      Inl f \<Rightarrow> False
    | Inr s \<Rightarrow>
        map seq (store s) = [4294964756, 4294966216] \<and> map len (store s) = [1460, 1460] \<and>
        seq (last (store s)) + ucast (len (last (store s))) = 380 \<and>
        (case tcp_clean_rtx_queue s 380 of
           Inl f \<Rightarrow> False
         | Inr s' \<Rightarrow> map seq (store s') = [4294964756] \<and> num_segments s' = 1))"
  by (simp add: sock_eval)

text \<open>
  C9 as amended: for every well-formed store in which no tracked segment ends past
  \<open>2 ^ 32\<close>, and every ACK number, \<open>tcp_clean_rtx_queue\<close> does not fault and removes
  exactly the segments with \<open>seq + len \<le> ack\<close> (the sum of natural numbers
  \<open>seg_end\<close>), leaving every other segment unchanged and in place;
  \<open>num_segments\<close> is the length of what is left and no other field of the socket
  changes. Consequently, when the store is not empty and its segments are in
  ascending order of their ends, pruning with the \<open>seq + len\<close> of the last segment
  leaves the store empty with \<open>num_segments = 0\<close>.
\<close>

theorem clean_rtx_queue_prunes_acked_without_wrap:
  assumes "sock_ok sk" and "\<forall>g \<in> set (store sk). seg_end g < 2 ^ 32"
  shows "\<exists>sk'. tcp_clean_rtx_queue sk a = Inr sk' \<and>
           store sk' = filter (\<lambda>g. \<not> seg_end g \<le> unat a) (store sk) \<and>
           unat (num_segments sk') = length (store sk') \<and>
           sk'\<lparr>segments := segments sk, num_segments := num_segments sk\<rparr> = sk \<and>
           (store sk \<noteq> [] \<and> sorted (map seg_end (store sk)) \<and>
            a = seq (last (store sk)) + ucast (len (last (store sk)))
              \<longrightarrow> store sk' = [] \<and> num_segments sk' = 0)"
proof -
  from clean_loop_spec [OF assms(1), of 0 a]
  obtain sk' where r: "clean_loop 0 sk a = Inr sk'" and ok: "sock_ok sk'"
    and st: "store sk' = filter (\<lambda>g. \<not> seq g + ucast (len g) \<le> a) (store sk)"
    and fr: "sk'\<lparr>segments := segments sk, num_segments := num_segments sk\<rparr> = sk"
    by auto
  from ok have ln: "unat (num_segments sk') = length (store sk')"
    by (simp add: store_def sock_ok_def)
  have cov: "(seq g + ucast (len g) \<le> a) = (seg_end g \<le> unat a)"
    if "g \<in> set (store sk)" for g
    using seg_end_no_wrap [of g] assms(2) that by (simp add: word_le_nat_alt)
  then have "filter (\<lambda>g. \<not> seq g + ucast (len g) \<le> a) (store sk)
           = filter (\<lambda>g. \<not> seg_end g \<le> unat a) (store sk)"
    by (intro filter_cong) simp_all
  with st have nat: "store sk' = filter (\<lambda>g. \<not> seg_end g \<le> unat a) (store sk)" by simp
  have "store sk' = [] \<and> num_segments sk' = 0"
    if ne: "store sk \<noteq> []" and srt: "sorted (map seg_end (store sk))"
      and a: "a = seq (last (store sk)) + ucast (len (last (store sk)))"
  proof -
    from ne have lin: "last (store sk) \<in> set (store sk)" by simp
    with assms(2) have "seg_end (last (store sk)) < 2 ^ 32" by blast
    from seg_end_no_wrap [OF this] a have ua: "unat a = seg_end (last (store sk))" by simp
    have "seg_end g \<le> unat a" if "g \<in> set (store sk)" for g
      unfolding ua using srt that by (rule sorted_map_le_last)
    with nat have "store sk' = []" by simp
    with ln show ?thesis by (simp add: unat_eq_0)
  qed
  with r nat ln fr show ?thesis by (auto simp: tcp_clean_rtx_queue_def)
qed

theorem clean_rtx_queue_prunes_acked_without_wrap_witness:
  "sock_ok (projr (run initial_sock [WriteXmit])) \<and>
   list_all (\<lambda>g. seg_end g < 2 ^ 32) (store (projr (run initial_sock [WriteXmit]))) \<and>
   store (projr (run initial_sock [WriteXmit])) \<noteq> [] \<and>
   sorted (map seg_end (store (projr (run initial_sock [WriteXmit])))) \<and>
   15600 = seq (last (store (projr (run initial_sock [WriteXmit])))) +
           ucast (len (last (store (projr (run initial_sock [WriteXmit]))))) \<and>
   (\<exists>sk'. tcp_clean_rtx_queue (projr (run initial_sock [WriteXmit])) 15600 = Inr sk' \<and>
          store sk' = [] \<and> num_segments sk' = 0) \<and>
   (\<exists>sk'. tcp_clean_rtx_queue (projr (run initial_sock [WriteXmit])) 6000 = Inr sk' \<and>
          map seq (store sk') = [5380, 6840, 8300, 9760, 11220, 12680, 14140])"
proof -
  let ?s = "projr (run initial_sock [WriteXmit])"
  have ok: "sock_ok ?s" by (simp add: sock_eval sock_ok_def)
  have nwl: "list_all (\<lambda>g. seg_end g < 2 ^ 32) (store ?s)"
    by (simp add: sock_eval seg_end_def)
  then have nw: "\<forall>g \<in> set (store ?s). seg_end g < 2 ^ 32" by (simp add: list_all_iff)
  have ne: "store ?s \<noteq> []" by (simp add: sock_eval)
  have srt: "sorted (map seg_end (store ?s))" by (simp add: sock_eval seg_end_def)
  have a: "15600 = seq (last (store ?s)) + ucast (len (last (store ?s)))"
    by (simp add: sock_eval)
  have f: "map seq (filter (\<lambda>g. \<not> seg_end g \<le> unat (6000 :: 32 word)) (store ?s))
             = [5380, 6840, 8300, 9760, 11220, 12680, 14140]"
    by (simp add: sock_eval seg_end_def)
  from clean_rtx_queue_prunes_acked_without_wrap [OF ok nw, of 15600] ne srt a
  have one: "\<exists>sk'. tcp_clean_rtx_queue ?s 15600 = Inr sk' \<and> store sk' = [] \<and> num_segments sk' = 0"
    by blast
  from clean_rtx_queue_prunes_acked_without_wrap [OF ok nw, of 6000] f
  have two: "\<exists>sk'. tcp_clean_rtx_queue ?s 6000 = Inr sk' \<and>
      map seq (store sk') = [5380, 6840, 8300, 9760, 11220, 12680, 14140]"
    by auto
  from ok nwl ne srt a one two show ?thesis by blast
qed

section \<open>A segment at the retry limit (C10)\<close>

text \<open>
  C10: for every socket and every segment whose \<open>retries\<close> has reached
  \<open>MAX_RETRIES\<close>, \<open>tcp_retransmit_skb\<close> changes nothing: the segment (its
  \<open>retrans\<close> flag and \<open>retries\<close> count included) and the socket (\<open>rto\<close>,
  \<open>packets_sent\<close>, \<open>bytes_sent\<close> and \<open>retransmits\<close> included) are returned as
  they were.
\<close>

theorem retransmit_skb_at_retry_limit:
  "MAX_RETRIES \<le> unat (retries seg) \<Longrightarrow> tcp_retransmit_skb sk seg = (sk, seg)"
  by (simp add: tcp_retransmit_skb_def)

theorem retransmit_skb_at_retry_limit_witness:
  "MAX_RETRIES \<le> unat (retries (zero_segment\<lparr>retries := 5\<rparr>)) \<and>
   tcp_retransmit_skb initial_sock (zero_segment\<lparr>retries := 5\<rparr>)
     = (initial_sock, zero_segment\<lparr>retries := 5\<rparr>)"
  using retransmit_skb_at_retry_limit [of "zero_segment\<lparr>retries := 5\<rparr>" initial_sock]
  by (simp add: MAX_RETRIES_def)

end
